theory Spec2Isabelle
  imports Main "HOL-Library.AList" "HOL-Library.Sublist"
begin

section \<open>Data model\<close>

text \<open>
  The program keeps a grammar, the FIRST sets and the FOLLOW sets in Python dictionaries
  from strings to strings. A dictionary remembers the order in which its keys were
  inserted and the program iterates over it, so a dictionary is an association list;
  assigning to a key that is present replaces the value in place and assigning to a new
  key appends it, which is \<open>AList.update\<close>. A symbol of a right-hand side is one
  character; the names of the nonterminals and the terminals are strings.
\<close>

type_synonym dict = "(string \<times> string) list"

text \<open>The exceptions that the list, string and dictionary operations of the program raise.\<close>

datatype error = IndexError | KeyError | ValueError

text \<open>\<open>d[k]\<close>: a missing key raises \<open>KeyError\<close>.\<close>

definition getitem :: "dict \<Rightarrow> string \<Rightarrow> error + string" where
  "getitem d k = (case map_of d k of None \<Rightarrow> Inl KeyError | Some v \<Rightarrow> Inr v)"

text \<open>\<open>xs[n]\<close> for a position counted from the front: out of range raises \<open>IndexError\<close>.\<close>

definition item :: "'a list \<Rightarrow> nat \<Rightarrow> error + 'a" where
  "item xs n = (if n < length xs then Inr (xs ! n) else Inl IndexError)"

text \<open>\<open>xs.index(x)\<close>: the first position of \<open>x\<close>; \<open>ValueError\<close> when there is none.\<close>

fun index :: "'a list \<Rightarrow> 'a \<Rightarrow> error + nat" where
  "index [] x = Inl ValueError"
| "index (y # ys) x =
     (if y = x then Inr 0
      else case index ys x of Inl e \<Rightarrow> Inl e | Inr n \<Rightarrow> Inr (Suc n))"

text \<open>A loop whose body may raise: the first exception ends it.\<close>

fun foldM :: "('a \<Rightarrow> 's \<Rightarrow> error + 's) \<Rightarrow> 'a list \<Rightarrow> 's \<Rightarrow> error + 's" where
  "foldM f [] s = Inr s"
| "foldM f (x # xs) s = (case f x s of Inl e \<Rightarrow> Inl e | Inr s' \<Rightarrow> foldM f xs s')"

text \<open>\<open>r in s\<close> on strings: \<open>r\<close> occurs in \<open>s\<close> as a contiguous piece.\<close>

fun contains :: "string \<Rightarrow> string \<Rightarrow> bool" where
  "contains [] r = (r = [])"
| "contains (c # cs) r = (prefix r (c # cs) \<or> contains cs r)"

text \<open>
  \<open>s.replace(r, "")\<close>: the occurrences of \<open>r\<close> are removed from left to right, the search
  going on behind each removed occurrence; an empty \<open>r\<close> leaves \<open>s\<close> as it is.
\<close>

function replace :: "string \<Rightarrow> string \<Rightarrow> string" where
  "replace [] r = []"
| "replace (c # cs) r =
     (if r \<noteq> [] \<and> prefix r (c # cs) then replace (drop (length r) (c # cs)) r
      else c # replace cs r)"
  by pat_completeness auto
termination
  by (relation "measure (\<lambda>(s, r). length s)") auto

text \<open>\<open>s.index(c, start)\<close> for a one-character \<open>c\<close>.\<close>

definition index_from :: "string \<Rightarrow> char \<Rightarrow> nat \<Rightarrow> error + nat" where
  "index_from s c start =
     (case index (drop start s) c of Inl e \<Rightarrow> Inl e | Inr n \<Rightarrow> Inr (start + n))"

section \<open>Grammar model\<close>

text \<open>
  \<open>correction\<close>. The first loop visits the keys in order and reads the production of the
  key as it is at that moment: when it is \<open>ep\<close>, the inner loop rewrites every production
  that contains the key, removing the key from it. The keys never change, so the loops run
  over the keys of the grammar that was passed in. The second loop copies every entry whose
  production is not \<open>ep\<close> now into a new dictionary.
\<close>

definition erase :: "string \<Rightarrow> dict \<Rightarrow> dict" where
  "erase r geramer =
     map (\<lambda>(dr, v). (dr, if contains v r then replace v r else v)) geramer"

fun erase_all :: "string list \<Rightarrow> dict \<Rightarrow> dict" where
  "erase_all [] geramer = geramer"
| "erase_all (r # rs) geramer =
     erase_all rs (if map_of geramer r = Some ''ep'' then erase r geramer else geramer)"

fun keep :: "dict \<Rightarrow> dict \<Rightarrow> dict" where
  "keep [] corrected_geramer = corrected_geramer"
| "keep ((r, v) # rest) corrected_geramer =
     keep rest (if v \<noteq> ''ep'' then AList.update r v corrected_geramer else corrected_geramer)"

definition correction :: "dict \<Rightarrow> dict" where
  "correction geramer = keep (erase_all (map fst geramer) geramer) []"

definition get_none_terminals :: "dict \<Rightarrow> string list" where
  "get_none_terminals gramer = map fst gramer"

fun terminals_of_rule :: "string list \<Rightarrow> string \<Rightarrow> string list \<Rightarrow> string list" where
  "terminals_of_rule none_terminals [] terminals = terminals"
| "terminals_of_rule none_terminals (symbol # rest) terminals =
     terminals_of_rule none_terminals rest
       (if [symbol] \<notin> set terminals \<and> symbol \<noteq> CHR ''d'' \<and> [symbol] \<notin> set none_terminals
        then (if symbol = CHR ''i''
              then (if ''id'' \<notin> set terminals then terminals @ [''id''] else terminals)
              else terminals @ [[symbol]])
        else terminals)"

definition get_terminals :: "dict \<Rightarrow> string list \<Rightarrow> string list" where
  "get_terminals gramer none_terminals =
     foldl (\<lambda>terminals (rule, rhs). terminals_of_rule none_terminals rhs terminals) [] gramer
       @ [''$'']"

section \<open>FIRST\<close>

text \<open>
  The \<open>while\<close> loop of \<open>firsts\<close>: \<open>tg\<close> is the nonterminal whose production is looked at.
  The loop ends when the production of \<open>tg\<close> starts with a symbol that is not a
  nonterminal; nothing else ends it, so it is a partial function and \<open>None\<close> is a run
  that never ends.
\<close>

partial_function (option) chain :: "dict \<Rightarrow> string list \<Rightarrow> string \<Rightarrow> (error + string) option" where
  "chain gramer none_terminals tg =
     (case getitem gramer tg of
        Inl e \<Rightarrow> Some (Inl e)
      | Inr v \<Rightarrow>
          (case item v 0 of
             Inl e \<Rightarrow> Some (Inl e)
           | Inr c \<Rightarrow>
               if [c] \<notin> set none_terminals
               then (if take 2 v = ''id'' then Some (Inr (take 2 v)) else Some (Inr [c]))
               else chain gramer none_terminals [c]))"

declare chain.simps [code]

text \<open>The body of the \<open>for\<close> loop of \<open>firsts\<close>, for a nonterminal with production \<open>v\<close>.\<close>

definition first_of :: "dict \<Rightarrow> string list \<Rightarrow> string \<Rightarrow> (error + string) option" where
  "first_of gramer none_terminals v =
     (if take 2 v = ''id'' then Some (Inr (take 2 v))
      else case item v 0 of
             Inl e \<Rightarrow> Some (Inl e)
           | Inr c \<Rightarrow>
               if [c] \<in> set none_terminals then chain gramer none_terminals [c]
               else Some (Inr [c]))"

fun firsts_loop :: "dict \<Rightarrow> string list \<Rightarrow> dict \<Rightarrow> dict \<Rightarrow> (error + dict) option" where
  "firsts_loop gramer none_terminals [] firsts_dict = Some (Inr firsts_dict)"
| "firsts_loop gramer none_terminals ((t, v) # rest) firsts_dict =
     (case first_of gramer none_terminals v of
        None \<Rightarrow> None
      | Some (Inl e) \<Rightarrow> Some (Inl e)
      | Some (Inr x) \<Rightarrow> firsts_loop gramer none_terminals rest (AList.update t x firsts_dict))"

definition firsts :: "dict \<Rightarrow> string list \<Rightarrow> (error + dict) option" where
  "firsts gramer none_terminals = firsts_loop gramer none_terminals gramer []"

text \<open>
  Two notions for stating what \<open>firsts\<close> computes. \<open>lead_edges\<close> lists, for every
  production that starts with a nonterminal, the pair of that nonterminal and the owner
  of the production: the steps that the \<open>while\<close> loop can take. \<open>single_terminal\<close> holds
  of \<open>id\<close> and of every string of one character that is not a nonterminal.
\<close>

fun lead_edges :: "dict \<Rightarrow> string list \<Rightarrow> (string \<times> string) list" where
  "lead_edges [] none_terminals = []"
| "lead_edges ((t, v) # rest) none_terminals =
     (case v of
        [] \<Rightarrow> []
      | c # _ \<Rightarrow> if [c] \<in> set none_terminals then [([c], t)] else [])
     @ lead_edges rest none_terminals"

definition single_terminal :: "string list \<Rightarrow> string \<Rightarrow> bool" where
  "single_terminal none_terminals x \<longleftrightarrow>
     x = ''id'' \<or> (\<exists>c. x = [c] \<and> [c] \<notin> set none_terminals)"

section \<open>FOLLOW\<close>

text \<open>
  \<open>follows\<close> keeps each FOLLOW set as one string, the terminals separated by commas.
  The function reads the FIRST sets through the name \<open>first\<close>, which is the global
  variable that the program binds to the result of \<open>firsts\<close> before it calls \<open>follows\<close>
  (the parameter called \<open>firsts\<close> is not used); \<open>first\<close> is a parameter of the model.

  \<open>follow_after\<close> is the body of the innermost loop of rule 2, for the occurrence of the
  nonterminal \<open>n_t_s\<close> at position \<open>i\<close> of the production \<open>rhs\<close>. Each of the three tests
  reads \<open>follows_dict[n_t_s]\<close> only when its first half holds, as \<open>and\<close> does.
\<close>

definition follow_after ::
  "dict \<Rightarrow> string list \<Rightarrow> string \<Rightarrow> string \<Rightarrow> nat \<Rightarrow> dict \<Rightarrow> error + dict" where
  "follow_after first none_terminals rhs n_t_s i follows_dict =
     (let string = rhs @ ''|'' in
      case item string (i + 1) of
        Inl e \<Rightarrow> Inl e
      | Inr c \<Rightarrow>
          (case (if [c] \<in> set none_terminals
                 then (case getitem first [c] of
                         Inl e \<Rightarrow> Inl e
                       | Inr f \<Rightarrow>
                           (case getitem follows_dict n_t_s of
                              Inl e \<Rightarrow> Inl e
                            | Inr old \<Rightarrow>
                                Inr (if contains old f then None else Some (old @ f @ '',''))))
                 else Inr None) of
             Inl e \<Rightarrow> Inl e
           | Inr (Some new) \<Rightarrow> Inr (AList.update n_t_s new follows_dict)
           | Inr None \<Rightarrow>
               (case (if take 2 (drop (i + 1) string) = ''id''
                      then (case getitem follows_dict n_t_s of
                              Inl e \<Rightarrow> Inl e
                            | Inr old \<Rightarrow>
                                Inr (if contains old ''id'' then None else Some (old @ ''id,'')))
                      else Inr None) of
                  Inl e \<Rightarrow> Inl e
                | Inr (Some new) \<Rightarrow> Inr (AList.update n_t_s new follows_dict)
                | Inr None \<Rightarrow>
                    if c \<noteq> CHR ''|'' then
                      (case getitem follows_dict n_t_s of
                         Inl e \<Rightarrow> Inl e
                       | Inr old \<Rightarrow>
                           Inr (if contains old [c] then follows_dict
                                else AList.update n_t_s (old @ [c] @ '','') follows_dict))
                    else Inr follows_dict)))"

text \<open>
  The loop \<open>for i in range(n_t_s_count)\<close>: it finds the next occurrence, appends its
  position to \<open>n_t_s_indexes\<close> and then runs the innermost loop over all the positions
  found so far.
\<close>

fun occurrences ::
  "dict \<Rightarrow> string list \<Rightarrow> string \<Rightarrow> char \<Rightarrow> nat \<Rightarrow> nat \<Rightarrow> nat list \<Rightarrow> dict \<Rightarrow> error + dict" where
  "occurrences first none_terminals rhs symbol 0 indx n_t_s_indexes follows_dict = Inr follows_dict"
| "occurrences first none_terminals rhs symbol (Suc k) indx n_t_s_indexes follows_dict =
     (case index_from rhs symbol indx of
        Inl e \<Rightarrow> Inl e
      | Inr j \<Rightarrow>
          (case foldM (follow_after first none_terminals rhs [symbol]) (n_t_s_indexes @ [j])
                  follows_dict of
             Inl e \<Rightarrow> Inl e
           | Inr follows_dict' \<Rightarrow>
               occurrences first none_terminals rhs symbol k (j + 1) (n_t_s_indexes @ [j])
                 follows_dict'))"

definition rule2_symbol ::
  "dict \<Rightarrow> string list \<Rightarrow> string \<Rightarrow> char \<Rightarrow> dict \<Rightarrow> error + dict" where
  "rule2_symbol first none_terminals rhs symbol follows_dict =
     (if [symbol] \<in> set none_terminals
      then occurrences first none_terminals rhs symbol (count_list rhs symbol) 0 [] follows_dict
      else Inr follows_dict)"

definition rule2 :: "dict \<Rightarrow> dict \<Rightarrow> string list \<Rightarrow> dict \<Rightarrow> error + dict" where
  "rule2 gramer first none_terminals follows_dict =
     foldM (\<lambda>(rule, rhs). foldM (rule2_symbol first none_terminals rhs) rhs) gramer follows_dict"

text \<open>
  Rule 3, for a production that ends in the nonterminal \<open>target\<close>: the loop runs over the
  characters of the FOLLOW string that the rule had when the loop started.
\<close>

definition rule3_symbol :: "string \<Rightarrow> char \<Rightarrow> dict \<Rightarrow> error + dict" where
  "rule3_symbol target symbol follows_dict =
     (case getitem follows_dict target of
        Inl e \<Rightarrow> Inl e
      | Inr old \<Rightarrow>
          if \<not> contains old [symbol] then
            (if symbol = CHR ''i'' then
               (if old = [] then Inr (AList.update target (old @ ''id'') follows_dict)
                else Inr (AList.update target (old @ '',id'') follows_dict))
             else if symbol \<noteq> CHR '','' then
               (if old = [] then Inr (AList.update target (old @ [symbol]) follows_dict)
                else if last old \<noteq> CHR '',''
                then Inr (AList.update target (old @ '','' @ [symbol]) follows_dict)
                else Inr (AList.update target (old @ [symbol]) follows_dict))
             else Inr follows_dict)
          else Inr follows_dict)"

definition rule3_rule :: "string list \<Rightarrow> string \<times> string \<Rightarrow> dict \<Rightarrow> error + dict" where
  "rule3_rule none_terminals = (\<lambda>(rule, rhs) follows_dict.
     if rhs = [] then Inl IndexError
     else if [last rhs] \<in> set none_terminals then
       (case getitem follows_dict rule of
          Inl e \<Rightarrow> Inl e
        | Inr source \<Rightarrow> foldM (rule3_symbol [last rhs]) source follows_dict)
     else Inr follows_dict)"

definition rule3 :: "dict \<Rightarrow> string list \<Rightarrow> dict \<Rightarrow> error + dict" where
  "rule3 gramer none_terminals follows_dict = foldM (rule3_rule none_terminals) gramer follows_dict"

text \<open>The two last loops: a trailing comma is cut off, then \<open>$\<close> is appended (rule 1).\<close>

definition strip_comma :: "string \<Rightarrow> string" where
  "strip_comma s = (if s \<noteq> [] \<and> last s = CHR '','' then butlast s else s)"

definition rule1 :: "string \<Rightarrow> string" where
  "rule1 s = (if s \<noteq> [] then s @ '',$'' else ''$'')"

definition follows :: "dict \<Rightarrow> dict \<Rightarrow> string list \<Rightarrow> error + dict" where
  "follows gramer first none_terminals =
     (case rule2 gramer first none_terminals
             (foldl (\<lambda>follows_dict (rule, rhs). AList.update rule [] follows_dict) [] gramer) of
        Inl e \<Rightarrow> Inl e
      | Inr follows_dict \<Rightarrow>
          (case rule3 gramer none_terminals follows_dict of
             Inl e \<Rightarrow> Inl e
           | Inr follows_dict' \<Rightarrow>
               Inr (map (\<lambda>(rule, s). (rule, rule1 (strip_comma s))) follows_dict')))"

text \<open>
  Notions for stating what the FOLLOW strings hold. \<open>split_commas\<close> cuts a string at
  its commas and \<open>entries\<close> keeps the pieces that are not empty: the terminals that a
  FOLLOW string lists. \<open>ok3\<close> is what the theorem keeps true of every string while rule 3
  runs (no \<open>$\<close> yet, no entry twice), \<open>ok2\<close> what it keeps true while rule 2 runs (the
  string is moreover empty or ends in a comma); \<open>inv2\<close> and \<open>inv3\<close> say it of a whole
  dictionary with the keys \<open>K\<close>. \<open>appended\<close> relates a dictionary to a later one with the
  same keys in which every string starts with the string it was. \<open>from_production\<close>
  holds of \<open>id\<close> and of the first character of any production.
\<close>

fun split_commas :: "string \<Rightarrow> string list" where
  "split_commas [] = [[]]"
| "split_commas (c # cs) =
     (if c = CHR '','' then [] # split_commas cs
      else (c # hd (split_commas cs)) # tl (split_commas cs))"

definition entries :: "string \<Rightarrow> string list" where
  "entries s = filter (\<lambda>f. f \<noteq> []) (split_commas s)"

definition ok3 :: "string \<Rightarrow> bool" where
  "ok3 s \<longleftrightarrow> CHR ''$'' \<notin> set s \<and> distinct (entries s)"

definition ok2 :: "string \<Rightarrow> bool" where
  "ok2 s \<longleftrightarrow> ok3 s \<and> (s = [] \<or> last s = CHR '','')"

definition inv2 :: "string list \<Rightarrow> dict \<Rightarrow> bool" where
  "inv2 K F \<longleftrightarrow> map fst F = K \<and> (\<forall>(k, s)\<in>set F. ok2 s)"

definition inv3 :: "string list \<Rightarrow> dict \<Rightarrow> bool" where
  "inv3 K F \<longleftrightarrow> map fst F = K \<and> (\<forall>(k, s)\<in>set F. ok3 s)"

definition appended :: "dict \<Rightarrow> dict \<Rightarrow> bool" where
  "appended F F' \<longleftrightarrow>
     map fst F' = map fst F
     \<and> (\<forall>k s. map_of F k = Some s \<longrightarrow> (\<exists>s'. map_of F' k = Some s' \<and> prefix s s'))"

definition from_production :: "dict \<Rightarrow> string \<Rightarrow> bool" where
  "from_production gramer x \<longleftrightarrow> x = ''id'' \<or> (\<exists>c t v. x = [c] \<and> (t, c # v) \<in> set gramer)"

section \<open>The table\<close>

text \<open>
  \<open>chart[i][j] = v\<close> and \<open>chart[i][j]\<close> on a list of rows; out of range raises
  \<open>IndexError\<close>.
\<close>

definition setcell :: "string list list \<Rightarrow> nat \<Rightarrow> nat \<Rightarrow> string \<Rightarrow> error + string list list" where
  "setcell chart i j v =
     (if i < length chart \<and> j < length (chart ! i)
      then Inr (chart[i := (chart ! i)[j := v]])
      else Inl IndexError)"

definition getcell :: "string list list \<Rightarrow> nat \<Rightarrow> nat \<Rightarrow> error + string" where
  "getcell chart i j =
     (case item chart i of Inl e \<Rightarrow> Inl e | Inr row \<Rightarrow> item row j)"

text \<open>
  \<open>creat_chart\<close>. The table has one row more than there are nonterminals and one column
  more than there are terminals, every cell starting as the one-character string of a
  space. Row 0 gets the terminals, column 0 the nonterminals. The last pair of loops puts
  the production of the row's nonterminal into every cell whose column heading is equal
  to the FIRST of that nonterminal. The parameter \<open>follows\<close> (here \<open>follows_d\<close>) is never read; neither is the
  string \<open>spaces\<close> that the function builds first, which the model leaves out.
\<close>

definition fill_cell ::
  "dict \<Rightarrow> dict \<Rightarrow> nat \<Rightarrow> nat \<Rightarrow> string list list \<Rightarrow> error + string list list" where
  "fill_cell gramer firsts_d i j chart =
     (case getcell chart (i + 1) 0 of
        Inl e \<Rightarrow> Inl e
      | Inr a \<Rightarrow>
          (case getitem firsts_d a of
             Inl e \<Rightarrow> Inl e
           | Inr f \<Rightarrow>
               (case getcell chart 0 (j + 1) of
                  Inl e \<Rightarrow> Inl e
                | Inr t \<Rightarrow>
                    if f = t then
                      (case getitem gramer a of
                         Inl e \<Rightarrow> Inl e
                       | Inr v \<Rightarrow> setcell chart (i + 1) (j + 1) v)
                    else Inr chart)))"

definition creat_chart ::
  "dict \<Rightarrow> dict \<Rightarrow> dict \<Rightarrow> string list \<Rightarrow> string list \<Rightarrow> error + string list list" where
  "creat_chart gramer firsts_d follows_d none_terminals terminals =
     (case setcell (replicate (length none_terminals + 1) (replicate (length terminals + 1) '' ''))
             0 0 '' '' of
        Inl e \<Rightarrow> Inl e
      | Inr chart0 \<Rightarrow>
          (case foldM (\<lambda>i chart.
                         case item terminals i of
                           Inl e \<Rightarrow> Inl e
                         | Inr t \<Rightarrow> setcell chart 0 (i + 1) t)
                  [0 ..< length terminals] chart0 of
             Inl e \<Rightarrow> Inl e
           | Inr chart1 \<Rightarrow>
               (case foldM (\<lambda>i chart.
                              case item none_terminals i of
                                Inl e \<Rightarrow> Inl e
                              | Inr a \<Rightarrow> setcell chart (i + 1) 0 a)
                       [0 ..< length chart1 - 1] chart1 of
                  Inl e \<Rightarrow> Inl e
                | Inr chart2 \<Rightarrow>
                    foldM (\<lambda>i chart.
                             case item chart 0 of
                               Inl e \<Rightarrow> Inl e
                             | Inr row0 \<Rightarrow>
                                 foldM (fill_cell gramer firsts_d i) [0 ..< length row0 - 1] chart)
                      [0 ..< length chart2 - 1] chart2)))"

text \<open>
  Two notions for stating what the table holds: a table of \<open>n + 1\<close> rows of \<open>m + 1\<close>
  cells, and the content that the last loops give the cell of a nonterminal and a terminal.
\<close>

definition dims :: "nat \<Rightarrow> nat \<Rightarrow> string list list \<Rightarrow> bool" where
  "dims n m chart \<longleftrightarrow> length chart = n + 1 \<and> (\<forall>r\<le>n. length (chart ! r) = m + 1)"

definition cell_of :: "dict \<Rightarrow> dict \<Rightarrow> string \<Rightarrow> string \<Rightarrow> string" where
  "cell_of gramer firsts_d a t =
     (if the (map_of firsts_d a) = t then the (map_of gramer a) else '' '')"

section \<open>The driver\<close>

text \<open>
  \<open>make_list\<close>, the local function of \<open>parse\<close>: every \<open>d\<close> is dropped, every \<open>i\<close>
  becomes the token \<open>id\<close>, every other character is a token of its own.
\<close>

fun make_list :: "string \<Rightarrow> string list" where
  "make_list [] = []"
| "make_list (symbol # st) =
     (if symbol = CHR ''d'' then make_list st
      else if symbol = CHR ''i'' then ''id'' # make_list st
      else [symbol] # make_list st)"

text \<open>
  The three \<open>return\<close> statements of \<open>parse\<close>. The first returns the text
  \<open>Successful parse\<close>, the other two the same text \<open>String not accepted\<close>; the model keeps
  them apart so that a theorem can say which one was taken.
\<close>

datatype exit = Successful_parse | Not_accepted_cell | Not_accepted_top

datatype verdict = Accept | Reject

fun verdict_of :: "exit \<Rightarrow> verdict" where
  "verdict_of Successful_parse = Accept"
| "verdict_of Not_accepted_cell = Reject"
| "verdict_of Not_accepted_top = Reject"

text \<open>The variables of the loop: the stack (top first), the cursor \<open>i\<close> and \<open>pointer\<close>.\<close>

record config =
  stack :: "string list"
  cursor :: nat
  pointer :: string

text \<open>
  One turn of the \<open>while(True)\<close> loop. \<open>Inl\<close> leaves the loop, by an exception or by one
  of the three returns (with the configuration at that moment); \<open>Inr\<close> is the
  configuration of the next turn. The order of the tests and of the subscripts is the
  order in which Python evaluates them.
\<close>

definition step ::
  "string list list \<Rightarrow> string list \<Rightarrow> string list \<Rightarrow> string list \<Rightarrow> config
     \<Rightarrow> (error + exit \<times> config) + config" where
  "step chart none_terminals terminals string c =
     (case stack c of
        [] \<Rightarrow> Inl (Inl IndexError)
      | tos # rest \<Rightarrow>
          if tos = ''$'' then Inl (Inr (Successful_parse, c))
          else if tos \<in> set none_terminals then
            (case index none_terminals tos of
               Inl e \<Rightarrow> Inl (Inl e)
             | Inr a \<Rightarrow>
                 (case item chart (a + 1) of
                    Inl e \<Rightarrow> Inl (Inl e)
                  | Inr row \<Rightarrow>
                      (case index terminals (pointer c) of
                         Inl e \<Rightarrow> Inl (Inl e)
                       | Inr t \<Rightarrow>
                           (case item row (t + 1) of
                              Inl e \<Rightarrow> Inl (Inl e)
                            | Inr cell \<Rightarrow>
                                if cell = '''' then Inl (Inr (Not_accepted_cell, c))
                                else Inr (c\<lparr>stack := make_list cell @ rest\<rparr>)))))
          else if tos = pointer c then
            (case item string (cursor c + 1) of
               Inl e \<Rightarrow> Inl (Inl e)
             | Inr p \<Rightarrow> Inr \<lparr>stack = rest, cursor = cursor c + 1, pointer = p\<rparr>)
          else Inl (Inr (Not_accepted_top, c)))"

text \<open>
  The loop itself. Nothing in the source bounds the number of turns, so the loop is a
  partial function: \<open>None\<close> is a run that never leaves the loop.
\<close>

partial_function (option) drive ::
  "string list list \<Rightarrow> string list \<Rightarrow> string list \<Rightarrow> string list \<Rightarrow> config
     \<Rightarrow> (error + exit \<times> config) option" where
  "drive chart none_terminals terminals string c =
     (case step chart none_terminals terminals string c of
        Inl r \<Rightarrow> Some r
      | Inr c' \<Rightarrow> drive chart none_terminals terminals string c')"

declare drive.simps [code]

text \<open>
  \<open>parse\<close> up to the loop: the input is cut into tokens and \<open>$\<close> is put behind them, the
  stack is the first nonterminal above \<open>$\<close>, the cursor is at the first token.
\<close>

definition tokens :: "string \<Rightarrow> string list" where
  "tokens string = make_list string @ [''$'']"

definition parse_run ::
  "string \<Rightarrow> string list list \<Rightarrow> string list \<Rightarrow> string list
     \<Rightarrow> (error + exit \<times> config) option" where
  "parse_run string chart none_terminals terminals =
     (case item none_terminals 0 of
        Inl e \<Rightarrow> Some (Inl e)
      | Inr start \<Rightarrow>
          (case item (tokens string) 0 of
             Inl e \<Rightarrow> Some (Inl e)
           | Inr p \<Rightarrow>
               drive chart none_terminals terminals (tokens string)
                 \<lparr>stack = [start, ''$''], cursor = 0, pointer = p\<rparr>))"

definition parse ::
  "string \<Rightarrow> string list list \<Rightarrow> string list \<Rightarrow> string list \<Rightarrow> (error + verdict) option" where
  "parse string chart none_terminals terminals =
     map_option (map_sum id (verdict_of \<circ> fst)) (parse_run string chart none_terminals terminals)"

section \<open>The program\<close>

text \<open>
  The statements at the end of the file, from the correction of the grammar that was read
  to the table (the printing left out): what they compute is collected in a record.
\<close>

record analysis =
  an_gramer :: dict
  an_none_terminals :: "string list"
  an_first :: dict
  an_follow :: dict
  an_terminals :: "string list"
  an_chart :: "string list list"

definition analyse :: "dict \<Rightarrow> (error + analysis) option" where
  "analyse raw =
     (let Gramer = correction raw;
          none_terminals = get_none_terminals Gramer
      in case firsts Gramer none_terminals of
           None \<Rightarrow> None
         | Some (Inl e) \<Rightarrow> Some (Inl e)
         | Some (Inr first) \<Rightarrow>
             (case follows Gramer first none_terminals of
                Inl e \<Rightarrow> Some (Inl e)
              | Inr follow \<Rightarrow>
                  (let terminals = get_terminals Gramer none_terminals
                   in case creat_chart Gramer first follow none_terminals terminals of
                        Inl e \<Rightarrow> Some (Inl e)
                      | Inr chart \<Rightarrow>
                          Some (Inr \<lparr>an_gramer = Gramer, an_none_terminals = none_terminals,
                                     an_first = first, an_follow = follow,
                                     an_terminals = terminals, an_chart = chart\<rparr>))))"

text \<open>The whole program: the analysis of the grammar, then \<open>parse\<close> on the string read.\<close>

definition program :: "dict \<Rightarrow> string \<Rightarrow> (error + exit \<times> config) option" where
  "program raw string =
     (case analyse raw of
        None \<Rightarrow> None
      | Some (Inl e) \<Rightarrow> Some (Inl e)
      | Some (Inr a) \<Rightarrow> parse_run string (an_chart a) (an_none_terminals a) (an_terminals a))"

text \<open>The grammar that the source file carries in a comment.\<close>

definition example_gramer :: dict where
  "example_gramer = [(''S'', ''aBb''), (''B'', ''+C''), (''C'', ''(D)''), (''D'', ''id'')]"

section \<open>Token normalisation\<close>




section \<open>The driver accepts and fails\<close>

text \<open>
  Claim C1. The claim is that \<open>parse\<close> accepts only when the stack top is \<open>$\<close> and the
  cursor is on the sentinel, every token before it consumed. The loop returns
  \<open>Successful parse\<close> as soon as the stack top is \<open>$\<close> and does not look at the cursor:
  for the grammar \<open>S \<rightarrow> a\<close> and the input \<open>ab\<close> the program accepts with the cursor on
  the token \<open>b\<close>, at position 1 of the three tokens \<open>a\<close>, \<open>b\<close>, \<open>$\<close>.
\<close>

theorem accepts_unread_input:
  "tokens ''ab'' = [''a'', ''b'', ''$'']
   \<and> program [(''S'', ''a'')] ''ab'' =
       Some (Inr (Successful_parse, \<lparr>stack = [''$''], cursor = 1, pointer = ''b''\<rparr>))
   \<and> map_option (map_sum id (verdict_of \<circ> fst)) (program [(''S'', ''a'')] ''ab'') =
       Some (Inr Accept)"
  by code_simp

text \<open>
  Claim C2. The claim is that \<open>parse\<close> returns Accept or Reject for every input string
  and never raises. For the grammar of the source's comment and the input \<open>a+(x)b\<close> the
  lookup \<open>terminals.index(pointer)\<close> raises \<open>ValueError\<close>, since \<open>x\<close> is no
  terminal of the grammar.
\<close>

theorem parse_raises_on_foreign_symbol:
  "program example_gramer ''a+(x)b'' = Some (Inl ValueError)"
  by code_simp

section \<open>A cycle of leading nonterminals\<close>

lemma chain_Some_leaves:
  assumes "chain g n t = Some y"
  shows "(\<forall>tg\<in>C. \<exists>c v. map_of g tg = Some (c # v) \<and> [c] \<in> set n \<and> [c] \<in> C) \<longrightarrow> t \<notin> C"
proof (rule chain.raw_induct
    [where P = "\<lambda>g n t y.
       (\<forall>tg\<in>C. \<exists>c v. map_of g tg = Some (c # v) \<and> [c] \<in> set n \<and> [c] \<in> C) \<longrightarrow> t \<notin> C",
     OF _ assms])
  fix chain' :: "dict \<Rightarrow> string list \<Rightarrow> string \<Rightarrow> (error + string) option"
    and g' n' t' y'
  assume IH: "\<And>g n t y. chain' g n t = Some y \<Longrightarrow>
       (\<forall>tg\<in>C. \<exists>c v. map_of g tg = Some (c # v) \<and> [c] \<in> set n \<and> [c] \<in> C) \<longrightarrow> t \<notin> C"
    and body: "(case getitem g' t' of
        Inl e \<Rightarrow> Some (Inl e)
      | Inr v \<Rightarrow>
          (case item v 0 of
             Inl e \<Rightarrow> Some (Inl e)
           | Inr c \<Rightarrow>
               if [c] \<notin> set n'
               then (if take 2 v = ''id'' then Some (Inr (take 2 v)) else Some (Inr [c]))
               else chain' g' n' [c])) = Some y'"
  show "(\<forall>tg\<in>C. \<exists>c v. map_of g' tg = Some (c # v) \<and> [c] \<in> set n' \<and> [c] \<in> C) \<longrightarrow> t' \<notin> C"
  proof (intro impI notI)
    assume cyc: "\<forall>tg\<in>C. \<exists>c v. map_of g' tg = Some (c # v) \<and> [c] \<in> set n' \<and> [c] \<in> C"
      and "t' \<in> C"
    then obtain c v where cv: "map_of g' t' = Some (c # v)" "[c] \<in> set n'" "[c] \<in> C"
      by blast
    with body have "chain' g' n' [c] = Some y'"
      by (simp add: getitem_def item_def)
    from IH[OF this] cyc cv(3) show False by blast
  qed
qed

lemma chain_diverges:
  assumes "\<forall>tg\<in>C. \<exists>c v. map_of gramer tg = Some (c # v) \<and> [c] \<in> set nts \<and> [c] \<in> C"
    and "tg \<in> C"
  shows "chain gramer nts tg = None"
proof (cases "chain gramer nts tg")
  case None
  then show ?thesis .
next
  case (Some y)
  from chain_Some_leaves[OF this, of C] assms show ?thesis by blast
qed

lemma firsts_loop_stuck:
  "(t, v) \<in> set rest \<Longrightarrow> first_of g n v = None \<Longrightarrow> firsts_loop g n rest d \<noteq> Some (Inr d')"
proof (induction rest arbitrary: d)
  case Nil
  then show ?case by simp
next
  case (Cons a rest)
  obtain t' v' where a: "a = (t', v')" by (cases a)
  show ?case
  proof (cases "first_of g n v'")
    case None
    then show ?thesis by (simp add: a)
  next
    case (Some r)
    with Cons.prems have "(t, v) \<in> set rest" by (auto simp: a)
    from Cons.IH[OF this Cons.prems(2)] Some show ?thesis
      by (cases r) (simp_all add: a)
  qed
qed

text \<open>
  Claim C3, as the code has it. \<open>firsts\<close> keeps no set of visited nonterminals and has no
  error for a cycle. Let \<open>C\<close> be a set of nonterminals each of which has a production that
  starts with a nonterminal of \<open>C\<close> again. When the production of some nonterminal \<open>t\<close> does
  not begin with the two characters \<open>id\<close> (for such a production \<open>firsts\<close> answers \<open>id\<close>
  before it looks at anything else) and starts with a nonterminal of \<open>C\<close>, the \<open>while\<close> loop
  that \<open>firsts\<close> enters for \<open>t\<close> never ends, and so \<open>firsts\<close> never returns a dictionary
  of FIRST sets.
\<close>

theorem firsts_cycle_never_ends:
  assumes "\<forall>tg\<in>C. \<exists>c v. map_of gramer tg = Some (c # v) \<and> [c] \<in> set none_terminals \<and> [c] \<in> C"
    and "(t, c # v) \<in> set gramer" and "[c] \<in> C" and "[c] \<in> set none_terminals"
    and "take 2 (c # v) \<noteq> ''id''"
  shows "chain gramer none_terminals [c] = None
         \<and> first_of gramer none_terminals (c # v) = None
         \<and> (\<forall>d. firsts gramer none_terminals \<noteq> Some (Inr d))"
proof -
  have 1: "chain gramer none_terminals [c] = None"
    using chain_diverges[OF assms(1) assms(3)] .
  have 2: "first_of gramer none_terminals (c # v) = None"
    using 1 assms(4,5) by (simp add: first_of_def item_def)
  show ?thesis
    using 1 2 firsts_loop_stuck[OF assms(2) 2] by (simp add: firsts_def)
qed

theorem firsts_cycle_never_ends_witness:
  "chain [(''S'', ''Sa'')] [''S''] ''S'' = None
   \<and> first_of [(''S'', ''Sa'')] [''S''] ''Sa'' = None
   \<and> (\<forall>d. firsts [(''S'', ''Sa'')] [''S''] \<noteq> Some (Inr d))"
  using firsts_cycle_never_ends[of "{''S''}" "[(''S'', ''Sa'')]" "[''S'']" "''S''" "CHR ''S''" "''a''"]
  by simp

text \<open>
  The claim itself, that the computation ends with a cycle error, fails for the grammar
  \<open>A \<rightarrow> B\<close>, \<open>B \<rightarrow> A\<close>: \<open>firsts\<close> does not return.
\<close>

theorem firsts_cycle_counterexample:
  "firsts [(''A'', ''B''), (''B'', ''A'')] [''A'', ''B''] = None"
proof -
  have "chain [(''A'', ''B''), (''B'', ''A'')] [''A'', ''B''] ''B'' = None"
    by (rule chain_diverges[where C = "{''A'', ''B''}"]) simp_all
  then show ?thesis
    by (simp add: firsts_def first_of_def item_def)
qed

section \<open>Correction of the grammar\<close>

lemma update_new: "k \<notin> fst ` set al \<Longrightarrow> AList.update k v al = al @ [(k, v)]"
  by (induction al) auto

lemma keep_filter:
  "distinct (map fst g) \<Longrightarrow> fst ` set acc \<inter> fst ` set g = {} \<Longrightarrow>
   keep g acc = acc @ filter (\<lambda>(k, v). v \<noteq> ''ep'') g"
proof (induction g arbitrary: acc)
  case Nil
  then show ?case by simp
next
  case (Cons a g)
  obtain r v where a: "a = (r, v)" by (cases a)
  from Cons.prems have r: "r \<notin> fst ` set acc" "r \<notin> fst ` set g" "distinct (map fst g)"
    and disj: "fst ` set acc \<inter> fst ` set g = {}"
    by (auto simp: a)
  show ?case
  proof (cases "v = ''ep''")
    case True
    with Cons.IH[OF r(3) disj] show ?thesis by (simp add: a)
  next
    case False
    have "fst ` set (acc @ [(r, v)]) \<inter> fst ` set g = {}"
      using disj r(2) by auto
    from Cons.IH[OF r(3) this] False show ?thesis
      by (simp add: a update_new[OF r(1)])
  qed
qed

lemma erase_keys: "map fst (erase r g) = map fst g"
  by (induction g) (auto simp: erase_def)

lemma erase_all_keys: "map fst (erase_all rs g) = map fst g"
  by (induction rs arbitrary: g) (simp_all add: erase_keys)

lemma correction_filter:
  "distinct (map fst g) \<Longrightarrow>
   correction g = filter (\<lambda>(k, v). v \<noteq> ''ep'') (erase_all (map fst g) g)"
  unfolding correction_def
  by (subst keep_filter) (simp_all add: erase_all_keys)

lemma erase_all_noop: "''ep'' \<notin> snd ` set g \<Longrightarrow> erase_all rs g = g"
proof (induction rs)
  case Nil
  then show ?case by simp
next
  case (Cons r rs)
  from Cons.prems have "map_of g r \<noteq> Some ''ep''"
    by (auto dest!: map_of_SomeD simp: image_iff)
  with Cons show ?case by simp
qed

lemma correction_no_ep: "distinct (map fst g) \<Longrightarrow> ''ep'' \<notin> snd ` set (correction g)"
  by (auto simp: correction_filter)

lemma correction_distinct: "distinct (map fst g) \<Longrightarrow> distinct (map fst (correction g))"
  by (simp add: correction_filter distinct_map_filter erase_all_keys)

lemma correction_noop: "distinct (map fst g) \<Longrightarrow> ''ep'' \<notin> snd ` set g \<Longrightarrow> correction g = g"
proof -
  assume d: "distinct (map fst g)" and n: "''ep'' \<notin> snd ` set g"
  have "filter (\<lambda>(k, v). v \<noteq> ''ep'') g = g"
    using n by (intro filter_True) (auto simp: image_iff)
  with d n show ?thesis by (simp add: correction_filter erase_all_noop)
qed

text \<open>
  Claim C8. A dictionary has each key once. For a grammar with no production \<open>ep\<close>,
  \<open>correction\<close> changes nothing: the first loop leaves the grammar passed in as it is and
  the result is that grammar. And \<open>correction\<close> is idempotent on every grammar.
\<close>

theorem correction_noop_idempotent:
  assumes "distinct (map fst geramer)"
  shows "(''ep'' \<notin> snd ` set geramer \<longrightarrow>
            erase_all (map fst geramer) geramer = geramer \<and> correction geramer = geramer)
         \<and> correction (correction geramer) = correction geramer"
  using assms correction_noop[OF correction_distinct correction_no_ep]
  by (simp add: erase_all_noop correction_noop)

theorem correction_noop_idempotent_witness:
  "distinct (map fst example_gramer) \<and> ''ep'' \<notin> snd ` set example_gramer
   \<and> erase_all (map fst example_gramer) example_gramer = example_gramer
   \<and> correction example_gramer = example_gramer
   \<and> correction [(''S'', ''Ab''), (''A'', ''ep'')] = [(''S'', ''b'')]
   \<and> correction (correction [(''S'', ''Ab''), (''A'', ''ep'')]) = correction [(''S'', ''Ab''), (''A'', ''ep'')]"
proof -
  have d: "distinct (map fst example_gramer)" and n: "''ep'' \<notin> snd ` set example_gramer"
    by (simp_all add: example_gramer_def)
  have d2: "distinct (map fst [(''S'', ''Ab''), (''A'', ''ep'')])" by simp
  have c: "correction [(''S'', ''Ab''), (''A'', ''ep'')] = [(''S'', ''b'')]" by code_simp
  from correction_noop_idempotent[OF d] correction_noop_idempotent[OF d2] d n c
  show ?thesis by simp
qed

lemma replace_subseq: "subseq (replace s r) s"
proof (induction s r rule: replace.induct)
  case (1 r)
  then show ?case by simp
next
  case (2 c cs r)
  show ?case
  proof (cases "r \<noteq> [] \<and> prefix r (c # cs)")
    case True
    have "subseq (drop (length r) (c # cs)) (c # cs)"
      by (metis append_take_drop_id list_emb_append2 subseq_order.order_refl)
    with 2(1)[OF True] True show ?thesis
      by (metis replace.simps(2) subseq_order.order_trans)
  next
    case False
    with 2(2)[OF False] show ?thesis by auto
  qed
qed

lemma replace_char: "c \<notin> set (replace s [c])"
proof (induction s "[c]" rule: replace.induct)
  case 1
  then show ?case by simp
next
  case (2 x xs)
  then show ?case by (cases "x = c") auto
qed

lemma contains_char: "contains s [c] \<longleftrightarrow> c \<in> set s"
  by (induction s) auto

lemma erase_map_of:
  "map_of (erase r g) k = map_option (\<lambda>v. if contains v r then replace v r else v) (map_of g k)"
  by (induction g) (auto simp: erase_def)

lemma erase_set:
  "set (erase r g) = (\<lambda>(k, v). (k, if contains v r then replace v r else v)) ` set g"
  by (simp add: erase_def)

lemma erase_value_free: "c \<notin> set (if contains v [c] then replace v [c] else v)"
  by (simp add: replace_char contains_char)

lemma erase_all_ep:
  "\<forall>r\<in>set rs. \<not> contains ''ep'' r \<Longrightarrow> map_of g k = Some ''ep'' \<Longrightarrow>
   map_of (erase_all rs g) k = Some ''ep''"
proof (induction rs arbitrary: g)
  case Nil
  then show ?case by simp
next
  case (Cons r rs)
  from Cons.prems have "map_of (erase r g) k = Some ''ep''"
    by (simp add: erase_map_of)
  with Cons show ?case by simp
qed

lemma erase_all_subseq:
  "(k, v') \<in> set (erase_all rs g) \<Longrightarrow> \<exists>v. (k, v) \<in> set g \<and> subseq v' v"
proof (induction rs arbitrary: g v')
  case Nil
  then show ?case by auto
next
  case (Cons r rs)
  let ?g = "if map_of g r = Some ''ep'' then erase r g else g"
  from Cons.prems have "(k, v') \<in> set (erase_all rs ?g)" by simp
  from Cons.IH[OF this] obtain w where w: "(k, w) \<in> set ?g" "subseq v' w" by blast
  then obtain v where v: "(k, v) \<in> set g" "subseq w v"
    by (cases "map_of g r = Some ''ep''") (auto simp: erase_set replace_subseq)
  with w(2) show ?case
    by (meson subseq_order.order_trans)
qed

lemma subseq_subset: "subseq xs ys \<Longrightarrow> set xs \<subseteq> set ys"
  by (induction rule: list_emb.induct) auto

lemma erase_all_free:
  assumes "\<forall>v\<in>snd ` set g. c \<notin> set v"
  shows "\<forall>v\<in>snd ` set (erase_all rs g). c \<notin> set v"
proof
  fix v' assume "v' \<in> snd ` set (erase_all rs g)"
  then obtain k where "(k, v') \<in> set (erase_all rs g)" by auto
  from erase_all_subseq[OF this] obtain v where v: "(k, v) \<in> set g" "subseq v' v" by blast
  have "c \<notin> set v" using assms v(1) by force
  with subseq_subset[OF v(2)] show "c \<notin> set v'"
    by blast
qed

lemma erase_all_visited:
  "\<forall>r\<in>set rs. \<not> contains ''ep'' r \<Longrightarrow> [c] \<in> set rs \<Longrightarrow> map_of g [c] = Some ''ep'' \<Longrightarrow>
   \<forall>v\<in>snd ` set (erase_all rs g). c \<notin> set v"
proof (induction rs arbitrary: g)
  case Nil
  then show ?case by simp
next
  case (Cons r rs)
  show ?case
  proof (cases "r = [c]")
    case True
    have "\<forall>v\<in>snd ` set (erase [c] g). c \<notin> set v"
      using erase_value_free[of c] by (force simp: erase_set)
    from erase_all_free[OF this] True Cons.prems(3) show ?thesis by simp
  next
    case False
    let ?g = "if map_of g r = Some ''ep'' then erase r g else g"
    from Cons.prems have "map_of ?g [c] = Some ''ep''"
      by (simp add: erase_map_of)
    moreover from False Cons.prems have "[c] \<in> set rs" "\<forall>r\<in>set rs. \<not> contains ''ep'' r"
      by auto
    ultimately have "\<forall>v\<in>snd ` set (erase_all rs ?g). c \<notin> set v"
      using Cons.IH by blast
    then show ?thesis by simp
  qed
qed

text \<open>
  Claim C7, as the code has it. The keys of a dictionary are distinct. When no nonterminal
  has a name that occurs in the marker \<open>ep\<close> (no name is empty, \<open>e\<close>, \<open>p\<close> or \<open>ep\<close>),
  \<open>correction\<close> drops every nonterminal whose production is exactly \<open>ep\<close>; when such a
  nonterminal is one character, that character occurs in no production of the result;
  every production of the result comes from the production that the nonterminal had by
  removing characters only, nothing being put in their place; and the grammar
  \<open>S \<rightarrow> Ab\<close>, \<open>A \<rightarrow> ep\<close> becomes \<open>S \<rightarrow> b\<close>.
\<close>

theorem correction_removes_epsilon:
  assumes "distinct (map fst geramer)"
    and "\<forall>k\<in>fst ` set geramer. \<not> contains ''ep'' k"
  shows "(\<forall>r. map_of geramer r = Some ''ep'' \<longrightarrow>
            r \<notin> fst ` set (correction geramer)
            \<and> (\<forall>c. r = [c] \<longrightarrow> (\<forall>v\<in>snd ` set (correction geramer). c \<notin> set v)))
         \<and> (\<forall>(k, v')\<in>set (correction geramer). \<exists>v. (k, v) \<in> set geramer \<and> subseq v' v)
         \<and> correction [(''S'', ''Ab''), (''A'', ''ep'')] = [(''S'', ''b'')]"
proof (intro conjI allI impI)
  let ?g = "erase_all (map fst geramer) geramer"
  have cf: "correction geramer = filter (\<lambda>(k, v). v \<noteq> ''ep'') ?g"
    using assms(1) by (rule correction_filter)
  have keys: "\<forall>r\<in>set (map fst geramer). \<not> contains ''ep'' r"
    using assms(2) by simp
  have dg: "distinct (map fst ?g)" using assms(1) by (simp add: erase_all_keys)
  {
    fix r assume r: "map_of geramer r = Some ''ep''"
    from erase_all_ep[OF keys r] have ep: "map_of ?g r = Some ''ep''" .
    show "r \<notin> fst ` set (correction geramer)"
    proof
      assume "r \<in> fst ` set (correction geramer)"
      then obtain v where "(r, v) \<in> set ?g" "v \<noteq> ''ep''" by (auto simp: cf)
      with dg ep show False by simp
    qed
    fix c assume c: "r = [c]"
    from r have "[c] \<in> set (map fst geramer)"
      by (auto simp: c dest!: map_of_SomeD intro: rev_image_eqI)
    from erase_all_visited[OF keys this] r c
    show "\<forall>v\<in>snd ` set (correction geramer). c \<notin> set v"
      by (auto simp: cf)
  }
  show "\<forall>(k, v')\<in>set (correction geramer). \<exists>v. (k, v) \<in> set geramer \<and> subseq v' v"
    using erase_all_subseq[of _ _ "map fst geramer" geramer] by (auto simp: cf)
  show "correction [(''S'', ''Ab''), (''A'', ''ep'')] = [(''S'', ''b'')]"
    by code_simp
qed


theorem correction_removes_epsilon_witness:
  "distinct (map fst [(''S'', ''Ab''), (''A'', ''ep'')])
   \<and> \<not> contains ''ep'' ''S'' \<and> \<not> contains ''ep'' ''A''
   \<and> map_of [(''S'', ''Ab''), (''A'', ''ep'')] ''A'' = Some ''ep''
   \<and> ''A'' \<notin> fst ` set (correction [(''S'', ''Ab''), (''A'', ''ep'')])
   \<and> CHR ''A'' \<notin> \<Union> (set ` snd ` set (correction [(''S'', ''Ab''), (''A'', ''ep'')]))
   \<and> correction [(''S'', ''Ab''), (''A'', ''ep'')] = [(''S'', ''b'')]"
proof -
  have d: "distinct (map fst [(''S'', ''Ab''), (''A'', ''ep'')])" by simp
  have k: "\<forall>k\<in>fst ` set [(''S'', ''Ab''), (''A'', ''ep'')]. \<not> contains ''ep'' k" by simp
  have m: "map_of [(''S'', ''Ab''), (''A'', ''ep'')] ''A'' = Some ''ep''" by simp
  from correction_removes_epsilon[OF d k] m
  have "''A'' \<notin> fst ` set (correction [(''S'', ''Ab''), (''A'', ''ep'')])"
    and "\<forall>v\<in>snd ` set (correction [(''S'', ''Ab''), (''A'', ''ep'')]). CHR ''A'' \<notin> set v"
    and "correction [(''S'', ''Ab''), (''A'', ''ep'')] = [(''S'', ''b'')]"
    by blast+
  with d m show ?thesis by simp
qed

text \<open>
  The claim for every raw grammar fails when a nonterminal with the production \<open>ep\<close> has
  a name that occurs in \<open>ep\<close>: removing the name \<open>e\<close> turns both productions into \<open>p\<close>,
  and \<open>A\<close>, whose production was exactly \<open>ep\<close>, stays in the grammar.
\<close>

theorem correction_keeps_epsilon_counterexample:
  "map_of [(''e'', ''ep''), (''A'', ''ep'')] ''A'' = Some ''ep''
   \<and> correction [(''e'', ''ep''), (''A'', ''ep'')] = [(''e'', ''p''), (''A'', ''p'')]
   \<and> ''A'' \<in> fst ` set (correction [(''e'', ''ep''), (''A'', ''ep'')])"
  by code_simp

section \<open>The cells of the table\<close>

lemma foldM_append:
  "foldM f (xs @ ys) s = (case foldM f xs s of Inl e \<Rightarrow> Inl e | Inr s' \<Rightarrow> foldM f ys s')"
  by (induction xs arbitrary: s) (auto split: sum.splits)

lemma foldM_upt:
  assumes "P 0 s"
    and "\<And>i s. i < k \<Longrightarrow> P i s \<Longrightarrow> \<exists>s'. f i s = Inr s' \<and> P (Suc i) s'"
  shows "\<exists>s'. foldM f [0 ..< k] s = Inr s' \<and> P k s'"
  using assms(2)
proof (induction k)
  case 0
  with assms(1) show ?case by simp
next
  case (Suc k)
  from Suc.IH Suc.prems obtain s1 where s1: "foldM f [0 ..< k] s = Inr s1" "P k s1"
    by (metis less_Suc_eq)
  from Suc.prems[OF _ s1(2)] obtain s2 where "f k s1 = Inr s2" "P (Suc k) s2"
    by blast
  with s1(1) show ?case by (simp add: foldM_append)
qed

lemma setcell_dims:
  assumes "dims n m chart" "i \<le> n" "j \<le> m"
  shows "\<exists>chart'. setcell chart i j v = Inr chart' \<and> dims n m chart'
           \<and> (\<forall>r\<le>n. \<forall>c\<le>m. chart' ! r ! c = (if r = i \<and> c = j then v else chart ! r ! c))"
proof -
  from assms have len: "i < length chart" "j < length (chart ! i)"
    by (simp_all add: dims_def)
  let ?c = "chart[i := (chart ! i)[j := v]]"
  have 1: "setcell chart i j v = Inr ?c" using len by (simp add: setcell_def)
  have 2: "dims n m ?c" using assms(1) len by (auto simp: dims_def nth_list_update)
  have 3: "\<forall>r\<le>n. \<forall>c\<le>m. ?c ! r ! c = (if r = i \<and> c = j then v else chart ! r ! c)"
    using assms(1) len by (auto simp: dims_def nth_list_update)
  from 1 2 3 show ?thesis by blast
qed

lemma getcell_dims: "dims n m chart \<Longrightarrow> r \<le> n \<Longrightarrow> c \<le> m \<Longrightarrow> getcell chart r c = Inr (chart ! r ! c)"
  by (simp add: getcell_def item_def dims_def)

lemma blank_dims: "dims n m (replicate (n + 1) (replicate (m + 1) v))"
  unfolding dims_def by (metis length_replicate less_Suc_eq_le nth_replicate Suc_eq_plus1)

lemma chart_headings:
  assumes "length none_terminals = n" "length terminals = m"
  shows "\<exists>chart0 chart1 chart2.
     setcell (replicate (length none_terminals + 1) (replicate (length terminals + 1) '' ''))
             0 0 '' '' = Inr chart0
     \<and> foldM (\<lambda>i chart.
                 case item terminals i of
                   Inl e \<Rightarrow> Inl e
                 | Inr t \<Rightarrow> setcell chart 0 (i + 1) t)
          [0 ..< length terminals] chart0 = Inr chart1
     \<and> foldM (\<lambda>i chart.
                 case item none_terminals i of
                   Inl e \<Rightarrow> Inl e
                 | Inr a \<Rightarrow> setcell chart (i + 1) 0 a)
          [0 ..< length chart1 - 1] chart1 = Inr chart2
     \<and> dims n m chart2 \<and> chart2 ! 0 ! 0 = '' ''
     \<and> (\<forall>j<m. chart2 ! 0 ! (j + 1) = terminals ! j)
     \<and> (\<forall>i<n. chart2 ! (i + 1) ! 0 = none_terminals ! i)
     \<and> (\<forall>i<n. \<forall>j<m. chart2 ! (i + 1) ! (j + 1) = '' '')"
proof -
  let ?blank = "replicate (n + 1) (replicate (m + 1) '' '')"
  have bl: "\<forall>r\<le>n. \<forall>c\<le>m. ?blank ! r ! c = '' ''"
  proof (intro allI impI)
    fix r c assume "r \<le> n" "c \<le> m"
    then have "r < n + 1" "c < m + 1" by simp_all
    then show "?blank ! r ! c = '' ''" by (simp only: nth_replicate)
  qed
  from setcell_dims[OF blank_dims, of 0 n 0 m "'' ''" "'' ''"] bl
  obtain chart0 where c0: "setcell ?blank 0 0 '' '' = Inr chart0" "dims n m chart0"
    "\<forall>r\<le>n. \<forall>c\<le>m. chart0 ! r ! c = '' ''" by auto
  let ?P1 = "\<lambda>k chart. dims n m chart
      \<and> (\<forall>r\<le>n. \<forall>c\<le>m. chart ! r ! c = (if r = 0 \<and> 0 < c \<and> c \<le> k then terminals ! (c - 1) else '' ''))"
  have "\<exists>chart1. foldM (\<lambda>i chart. case item terminals i of Inl e \<Rightarrow> Inl e
              | Inr t \<Rightarrow> setcell chart 0 (i + 1) t) [0 ..< m] chart0 = Inr chart1 \<and> ?P1 m chart1"
  proof (rule foldM_upt[where P = ?P1])
    show "?P1 0 chart0" using c0 by simp
  next
    fix i chart assume i: "i < m" and P: "?P1 i chart"
    from setcell_dims[of n m chart 0 "i + 1" "terminals ! i"] P i
    obtain chart' where "setcell chart 0 (i + 1) (terminals ! i) = Inr chart'" "dims n m chart'"
      "\<forall>r\<le>n. \<forall>c\<le>m. chart' ! r ! c = (if r = 0 \<and> c = i + 1 then terminals ! i else chart ! r ! c)"
      by auto
    with P i assms(2)
    show "\<exists>s'. (case item terminals i of Inl e \<Rightarrow> Inl e | Inr t \<Rightarrow> setcell chart 0 (i + 1) t) = Inr s'
            \<and> ?P1 (Suc i) s'"
      by (auto simp: item_def less_Suc_eq_le)
  qed
  then obtain chart1 where c1: "foldM (\<lambda>i chart. case item terminals i of Inl e \<Rightarrow> Inl e
              | Inr t \<Rightarrow> setcell chart 0 (i + 1) t) [0 ..< m] chart0 = Inr chart1" "?P1 m chart1"
    by blast
  let ?P2 = "\<lambda>k chart. dims n m chart
      \<and> (\<forall>r\<le>n. \<forall>c\<le>m. chart ! r ! c =
            (if r = 0 \<and> 0 < c then terminals ! (c - 1)
             else if 0 < r \<and> r \<le> k \<and> c = 0 then none_terminals ! (r - 1) else '' ''))"
  have "\<exists>chart2. foldM (\<lambda>i chart. case item none_terminals i of Inl e \<Rightarrow> Inl e
              | Inr a \<Rightarrow> setcell chart (i + 1) 0 a) [0 ..< n] chart1 = Inr chart2 \<and> ?P2 n chart2"
  proof (rule foldM_upt[where P = ?P2])
    show "?P2 0 chart1" using c1(2) by auto
  next
    fix i chart assume i: "i < n" and P: "?P2 i chart"
    from setcell_dims[of n m chart "i + 1" 0 "none_terminals ! i"] P i
    obtain chart' where "setcell chart (i + 1) 0 (none_terminals ! i) = Inr chart'" "dims n m chart'"
      "\<forall>r\<le>n. \<forall>c\<le>m. chart' ! r ! c = (if r = i + 1 \<and> c = 0 then none_terminals ! i else chart ! r ! c)"
      by auto
    with P i assms(1)
    show "\<exists>s'. (case item none_terminals i of Inl e \<Rightarrow> Inl e | Inr a \<Rightarrow> setcell chart (i + 1) 0 a) = Inr s'
            \<and> ?P2 (Suc i) s'"
      by (auto simp: item_def less_Suc_eq_le)
  qed
  then obtain chart2 where c2: "foldM (\<lambda>i chart. case item none_terminals i of Inl e \<Rightarrow> Inl e
              | Inr a \<Rightarrow> setcell chart (i + 1) 0 a) [0 ..< n] chart1 = Inr chart2" "?P2 n chart2"
    by blast
  have l1: "length chart1 - 1 = n" using c1(2) by (simp add: dims_def)
  have "chart2 ! 0 ! 0 = '' ''" "\<forall>j<m. chart2 ! 0 ! (j + 1) = terminals ! j"
    "\<forall>i<n. chart2 ! (i + 1) ! 0 = none_terminals ! i"
    "\<forall>i<n. \<forall>j<m. chart2 ! (i + 1) ! (j + 1) = '' ''"
    using c2(2) by simp_all
  with c0(1) c1(1) c2 l1 assms show ?thesis by auto
qed

lemma fill_cell_step:
  assumes d: "dims n m chart" and i: "i < n" and j: "j < m"
    and a: "chart ! (i + 1) ! 0 = a" and t: "chart ! 0 ! (j + 1) = t"
    and keys: "map_of firsts_d a \<noteq> None" "map_of gramer a \<noteq> None"
    and blank: "chart ! (i + 1) ! (j + 1) = '' ''"
  shows "\<exists>chart'. fill_cell gramer firsts_d i j chart = Inr chart' \<and> dims n m chart'
           \<and> (\<forall>r\<le>n. \<forall>c\<le>m. chart' ! r ! c =
                 (if r = i + 1 \<and> c = j + 1 then cell_of gramer firsts_d a t else chart ! r ! c))"
proof -
  from keys obtain fv gv where fv: "map_of firsts_d a = Some fv" and gv: "map_of gramer a = Some gv"
    by auto
  have g1: "getcell chart (i + 1) 0 = Inr a"
    using getcell_dims[OF d, of "i + 1" 0] i a by simp
  have g2: "getcell chart 0 (j + 1) = Inr t"
    using getcell_dims[OF d, of 0 "j + 1"] j t by simp
  show ?thesis
  proof (cases "fv = t")
    case True
    from setcell_dims[OF d, of "i + 1" "j + 1" gv] i j
    obtain chart' where "setcell chart (i + 1) (j + 1) gv = Inr chart'" "dims n m chart'"
      "\<forall>r\<le>n. \<forall>c\<le>m. chart' ! r ! c = (if r = i + 1 \<and> c = j + 1 then gv else chart ! r ! c)"
      by auto
    with True g1 g2 fv gv show ?thesis
      by (simp add: fill_cell_def getitem_def cell_of_def)
  next
    case False
    with g1 g2 fv gv d blank show ?thesis
      by (simp add: fill_cell_def getitem_def cell_of_def)
  qed
qed

lemma chart_fill:
  assumes d: "dims n m chart2"
    and hd: "\<forall>j<m. chart2 ! 0 ! (j + 1) = terminals ! j"
    and col: "\<forall>i<n. chart2 ! (i + 1) ! 0 = none_terminals ! i"
    and blank: "\<forall>i<n. \<forall>j<m. chart2 ! (i + 1) ! (j + 1) = '' ''"
    and keys: "\<forall>i<n. map_of firsts_d (none_terminals ! i) \<noteq> None
                     \<and> map_of gramer (none_terminals ! i) \<noteq> None"
  shows "\<exists>chart.
      foldM (\<lambda>i chart.
               case item chart 0 of
                 Inl e \<Rightarrow> Inl e
               | Inr row0 \<Rightarrow> foldM (fill_cell gramer firsts_d i) [0 ..< length row0 - 1] chart)
        [0 ..< n] chart2 = Inr chart
      \<and> dims n m chart
      \<and> (\<forall>r\<le>n. \<forall>c\<le>m. chart ! r ! c =
            (if r = 0 \<or> c = 0 then chart2 ! r ! c
             else cell_of gramer firsts_d (none_terminals ! (r - 1)) (terminals ! (c - 1))))"
proof -
  let ?Q = "\<lambda>i j chart. dims n m chart
      \<and> (\<forall>r\<le>n. \<forall>c\<le>m. chart ! r ! c =
            (if r = 0 \<or> c = 0 then chart2 ! r ! c
             else if r - 1 < i \<or> (r - 1 = i \<and> c - 1 < j)
             then cell_of gramer firsts_d (none_terminals ! (r - 1)) (terminals ! (c - 1))
             else '' ''))"
  have start: "?Q 0 0 chart2"
  proof (intro conjI allI impI)
    show "dims n m chart2" by (rule d)
    fix r c assume rc: "r \<le> n" "c \<le> m"
    show "chart2 ! r ! c = (if r = 0 \<or> c = 0 then chart2 ! r ! c
             else if r - 1 < 0 \<or> (r - 1 = 0 \<and> c - 1 < 0)
             then cell_of gramer firsts_d (none_terminals ! (r - 1)) (terminals ! (c - 1))
             else '' '')"
    proof (cases "r = 0 \<or> c = 0")
      case True then show ?thesis by simp
    next
      case False
      with rc have lt: "r - 1 < n" "c - 1 < m" and eq: "r - 1 + 1 = r" "c - 1 + 1 = c"
        by auto
      from blank[rule_format, OF lt] have "chart2 ! r ! c = '' ''"
        unfolding eq .
      with False show ?thesis by simp
    qed
  qed
  have inner: "\<exists>chart'. foldM (fill_cell gramer firsts_d i) [0 ..< m] chart = Inr chart' \<and> ?Q i m chart'"
    if i: "i < n" and Q: "?Q i 0 chart" for i chart
  proof (rule foldM_upt[where P = "?Q i"])
    show "?Q i 0 chart" by (rule Q)
  next
    fix j ch assume j: "j < m" and P: "?Q i j ch"
    from P have dd: "dims n m ch" by simp
    from P i j have a: "ch ! (i + 1) ! 0 = none_terminals ! i"
      using col by simp
    from P i j have t: "ch ! 0 ! (j + 1) = terminals ! j"
      using hd by simp
    from P i j have b: "ch ! (i + 1) ! (j + 1) = '' ''" by simp
    from fill_cell_step[OF dd i j a t _ _ b, of firsts_d gramer] keys i
    obtain ch' where ch': "fill_cell gramer firsts_d i j ch = Inr ch'" "dims n m ch'"
      "\<forall>r\<le>n. \<forall>c\<le>m. ch' ! r ! c =
          (if r = i + 1 \<and> c = j + 1
           then cell_of gramer firsts_d (none_terminals ! i) (terminals ! j) else ch ! r ! c)"
      by blast
    have "?Q i (Suc j) ch'"
    proof (intro conjI allI impI)
      show "dims n m ch'" by (rule ch'(2))
      fix r c assume rc: "r \<le> n" "c \<le> m"
      from P rc have old: "ch ! r ! c =
            (if r = 0 \<or> c = 0 then chart2 ! r ! c
             else if r - 1 < i \<or> (r - 1 = i \<and> c - 1 < j)
             then cell_of gramer firsts_d (none_terminals ! (r - 1)) (terminals ! (c - 1))
             else '' '')" by blast
      from ch'(3) rc have new: "ch' ! r ! c =
          (if r = i + 1 \<and> c = j + 1
           then cell_of gramer firsts_d (none_terminals ! i) (terminals ! j) else ch ! r ! c)"
        by blast
      show "ch' ! r ! c =
            (if r = 0 \<or> c = 0 then chart2 ! r ! c
             else if r - 1 < i \<or> (r - 1 = i \<and> c - 1 < Suc j)
             then cell_of gramer firsts_d (none_terminals ! (r - 1)) (terminals ! (c - 1))
             else '' '')"
        unfolding new old by (cases "r = i + 1 \<and> c = j + 1") (auto simp: less_Suc_eq)
    qed
    with ch'(1) show "\<exists>s'. fill_cell gramer firsts_d i j ch = Inr s' \<and> ?Q i (Suc j) s'"
      by blast
  qed
  have "\<exists>chart. foldM (\<lambda>i chart.
               case item chart 0 of
                 Inl e \<Rightarrow> Inl e
               | Inr row0 \<Rightarrow> foldM (fill_cell gramer firsts_d i) [0 ..< length row0 - 1] chart)
        [0 ..< n] chart2 = Inr chart \<and> ?Q n 0 chart"
  proof (rule foldM_upt[where P = "\<lambda>i. ?Q i 0"])
    show "?Q 0 0 chart2" by (rule start)
  next
    fix i ch assume i: "i < n" and P: "?Q i 0 ch"
    from P have row: "item ch 0 = Inr (ch ! 0)" "length (ch ! 0) - 1 = m"
      by (simp_all add: dims_def item_def)
    from inner[OF i P] obtain ch' where ch': "foldM (fill_cell gramer firsts_d i) [0 ..< m] ch = Inr ch'"
      "?Q i m ch'" by blast
    have "?Q (Suc i) 0 ch'"
    proof (intro conjI allI impI)
      show "dims n m ch'" using ch'(2) by simp
      fix r c assume rc: "r \<le> n" "c \<le> m"
      from ch'(2) rc have old: "ch' ! r ! c =
            (if r = 0 \<or> c = 0 then chart2 ! r ! c
             else if r - 1 < i \<or> (r - 1 = i \<and> c - 1 < m)
             then cell_of gramer firsts_d (none_terminals ! (r - 1)) (terminals ! (c - 1))
             else '' '')" by blast
      show "ch' ! r ! c =
            (if r = 0 \<or> c = 0 then chart2 ! r ! c
             else if r - 1 < Suc i \<or> (r - 1 = Suc i \<and> c - 1 < 0)
             then cell_of gramer firsts_d (none_terminals ! (r - 1)) (terminals ! (c - 1))
             else '' '')"
        unfolding old using rc by (auto simp: less_Suc_eq)
    qed
    with ch'(1) row
    show "\<exists>s'. (case item ch 0 of Inl e \<Rightarrow> Inl e
             | Inr row0 \<Rightarrow> foldM (fill_cell gramer firsts_d i) [0 ..< length row0 - 1] ch) = Inr s'
           \<and> ?Q (Suc i) 0 s'"
      by simp
  qed
  then obtain chart where c: "foldM (\<lambda>i chart.
               case item chart 0 of
                 Inl e \<Rightarrow> Inl e
               | Inr row0 \<Rightarrow> foldM (fill_cell gramer firsts_d i) [0 ..< length row0 - 1] chart)
        [0 ..< n] chart2 = Inr chart" "?Q n 0 chart" by blast
  have "\<forall>r\<le>n. \<forall>c\<le>m. chart ! r ! c =
            (if r = 0 \<or> c = 0 then chart2 ! r ! c
             else cell_of gramer firsts_d (none_terminals ! (r - 1)) (terminals ! (c - 1)))"
  proof (intro allI impI)
    fix r ca assume rc: "r \<le> n" "ca \<le> m"
    with c(2) have "chart ! r ! ca =
            (if r = 0 \<or> ca = 0 then chart2 ! r ! ca
             else if r - 1 < n \<or> (r - 1 = n \<and> ca - 1 < 0)
             then cell_of gramer firsts_d (none_terminals ! (r - 1)) (terminals ! (ca - 1))
             else '' '')" by blast
    with rc show "chart ! r ! ca =
            (if r = 0 \<or> ca = 0 then chart2 ! r ! ca
             else cell_of gramer firsts_d (none_terminals ! (r - 1)) (terminals ! (ca - 1)))"
      by auto
  qed
  with c show ?thesis by blast
qed

lemma creat_chart_cells:
  assumes keys: "\<forall>a\<in>set none_terminals. map_of firsts_d a \<noteq> None \<and> map_of gramer a \<noteq> None"
  shows "\<exists>chart. creat_chart gramer firsts_d follows_d none_terminals terminals = Inr chart
      \<and> dims (length none_terminals) (length terminals) chart
      \<and> chart ! 0 ! 0 = '' ''
      \<and> (\<forall>j<length terminals. chart ! 0 ! (j + 1) = terminals ! j)
      \<and> (\<forall>i<length none_terminals. chart ! (i + 1) ! 0 = none_terminals ! i)
      \<and> (\<forall>i<length none_terminals. \<forall>j<length terminals.
            chart ! (i + 1) ! (j + 1) = cell_of gramer firsts_d (none_terminals ! i) (terminals ! j))"
proof -
  let ?n = "length none_terminals" and ?m = "length terminals"
  from chart_headings[OF refl refl, of none_terminals terminals]
  obtain chart0 chart1 chart2 where
    c0: "setcell (replicate (?n + 1) (replicate (?m + 1) '' '')) 0 0 '' '' = Inr chart0"
    and c1: "foldM (\<lambda>i chart. case item terminals i of Inl e \<Rightarrow> Inl e
                 | Inr t \<Rightarrow> setcell chart 0 (i + 1) t) [0 ..< ?m] chart0 = Inr chart1"
    and c2: "foldM (\<lambda>i chart. case item none_terminals i of Inl e \<Rightarrow> Inl e
                 | Inr a \<Rightarrow> setcell chart (i + 1) 0 a) [0 ..< length chart1 - 1] chart1 = Inr chart2"
    and d: "dims ?n ?m chart2" and z: "chart2 ! 0 ! 0 = '' ''"
    and h: "\<forall>j<?m. chart2 ! 0 ! (j + 1) = terminals ! j"
    and c: "\<forall>i<?n. chart2 ! (i + 1) ! 0 = none_terminals ! i"
    and b: "\<forall>i<?n. \<forall>j<?m. chart2 ! (i + 1) ! (j + 1) = '' ''"
    by blast
  have k: "\<forall>i<?n. map_of firsts_d (none_terminals ! i) \<noteq> None
                     \<and> map_of gramer (none_terminals ! i) \<noteq> None"
    using keys by simp
  from chart_fill[OF d h c b k]
  obtain chart where f: "foldM (\<lambda>i chart.
               case item chart 0 of
                 Inl e \<Rightarrow> Inl e
               | Inr row0 \<Rightarrow> foldM (fill_cell gramer firsts_d i) [0 ..< length row0 - 1] chart)
        [0 ..< ?n] chart2 = Inr chart"
    and d': "dims ?n ?m chart"
    and cells: "\<forall>r\<le>?n. \<forall>c\<le>?m. chart ! r ! c =
            (if r = 0 \<or> c = 0 then chart2 ! r ! c
             else cell_of gramer firsts_d (none_terminals ! (r - 1)) (terminals ! (c - 1)))"
    by blast
  have l2: "length chart2 - 1 = ?n" using d by (simp add: dims_def)
  have r: "creat_chart gramer firsts_d follows_d none_terminals terminals = Inr chart"
    unfolding creat_chart_def c0 sum.case c1 c2 l2 f ..
  have "chart ! 0 ! 0 = '' ''" using cells z by simp
  moreover have "\<forall>j<?m. chart ! 0 ! (j + 1) = terminals ! j" using cells h by simp
  moreover have "\<forall>i<?n. chart ! (i + 1) ! 0 = none_terminals ! i" using cells c by simp
  moreover have "\<forall>i<?n. \<forall>j<?m.
            chart ! (i + 1) ! (j + 1) = cell_of gramer firsts_d (none_terminals ! i) (terminals ! j)"
    using cells by simp
  ultimately show ?thesis using r d' by blast
qed

text \<open>
  Claim C4, as the code has it. When every nonterminal has a FIRST entry and a production,
  \<open>creat_chart\<close> returns a table in which row \<open>i + 1\<close> is headed by nonterminal \<open>i\<close>, column
  \<open>j + 1\<close> by terminal \<open>j\<close>, and the cell of nonterminal \<open>A\<close> and terminal \<open>t\<close> holds the
  production of \<open>A\<close> when FIRST of \<open>A\<close> is \<open>t\<close> and the one-character string of a space
  otherwise, never the empty string. So the cell is equal to the production exactly when
  FIRST of \<open>A\<close> is \<open>t\<close> or the production is itself that string of a space. The table
  depends on the grammar, the FIRST sets and the two lists only: the FOLLOW argument is
  ignored.
\<close>

theorem chart_cells:
  assumes "\<forall>a\<in>set none_terminals. map_of firsts_d a \<noteq> None \<and> map_of gramer a \<noteq> None"
  shows "\<exists>chart. creat_chart gramer firsts_d follows_d none_terminals terminals = Inr chart
      \<and> (\<forall>i<length none_terminals. \<forall>j<length terminals.
            getcell chart (i + 1) 0 = Inr (none_terminals ! i)
            \<and> getcell chart 0 (j + 1) = Inr (terminals ! j)
            \<and> getcell chart (i + 1) (j + 1) =
                Inr (if the (map_of firsts_d (none_terminals ! i)) = terminals ! j
                     then the (map_of gramer (none_terminals ! i)) else '' '')
            \<and> (getcell chart (i + 1) (j + 1) = Inr (the (map_of gramer (none_terminals ! i)))
                 \<longleftrightarrow> the (map_of firsts_d (none_terminals ! i)) = terminals ! j
                      \<or> the (map_of gramer (none_terminals ! i)) = '' ''))
      \<and> creat_chart gramer firsts_d follows_d' none_terminals terminals =
          creat_chart gramer firsts_d follows_d none_terminals terminals"
proof -
  from creat_chart_cells[OF assms, of follows_d terminals]
  obtain chart where r: "creat_chart gramer firsts_d follows_d none_terminals terminals = Inr chart"
    and d: "dims (length none_terminals) (length terminals) chart"
    and h: "\<forall>j<length terminals. chart ! 0 ! (j + 1) = terminals ! j"
    and c: "\<forall>i<length none_terminals. chart ! (i + 1) ! 0 = none_terminals ! i"
    and x: "\<forall>i<length none_terminals. \<forall>j<length terminals.
            chart ! (i + 1) ! (j + 1) = cell_of gramer firsts_d (none_terminals ! i) (terminals ! j)"
    by blast
  have "getcell chart (i + 1) 0 = Inr (none_terminals ! i)
            \<and> getcell chart 0 (j + 1) = Inr (terminals ! j)
            \<and> getcell chart (i + 1) (j + 1) =
                Inr (if the (map_of firsts_d (none_terminals ! i)) = terminals ! j
                     then the (map_of gramer (none_terminals ! i)) else '' '')
            \<and> (getcell chart (i + 1) (j + 1) = Inr (the (map_of gramer (none_terminals ! i)))
                 \<longleftrightarrow> the (map_of firsts_d (none_terminals ! i)) = terminals ! j
                      \<or> the (map_of gramer (none_terminals ! i)) = '' '')"
    if "i < length none_terminals" "j < length terminals" for i j
    using that h c x getcell_dims[OF d, of "i + 1" 0] getcell_dims[OF d, of 0 "j + 1"]
      getcell_dims[OF d, of "i + 1" "j + 1"]
    by (auto simp: cell_of_def)
  moreover have "creat_chart gramer firsts_d follows_d' none_terminals terminals =
          creat_chart gramer firsts_d follows_d none_terminals terminals"
    by (simp add: creat_chart_def)
  ultimately show ?thesis using r by blast
qed

theorem chart_cells_witness:
  "creat_chart example_gramer [(''S'', ''a''), (''B'', ''+''), (''C'', ''(''), (''D'', ''id'')] []
      [''S'', ''B'', ''C'', ''D''] [''a'', ''b'', ''+'', ''('', '')'', ''id'', ''$''] =
     Inr [['' '', ''a'', ''b'', ''+'', ''('', '')'', ''id'', ''$''],
          [''S'', ''aBb'', '' '', '' '', '' '', '' '', '' '', '' ''],
          [''B'', '' '', '' '', ''+C'', '' '', '' '', '' '', '' ''],
          [''C'', '' '', '' '', '' '', ''(D)'', '' '', '' '', '' ''],
          [''D'', '' '', '' '', '' '', '' '', '' '', ''id'', '' '']]
   \<and> (\<exists>chart. creat_chart example_gramer [(''S'', ''a''), (''B'', ''+''), (''C'', ''(''), (''D'', ''id'')] []
      [''S'', ''B'', ''C'', ''D''] [''a'', ''b'', ''+'', ''('', '')'', ''id'', ''$''] = Inr chart
      \<and> getcell chart (Suc 0) (Suc 0) = Inr ''aBb''
      \<and> getcell chart (Suc 0) (Suc (Suc 0)) = Inr '' '')"
proof -
  let ?f = "[(''S'', ''a''), (''B'', ''+''), (''C'', ''(''), (''D'', ''id'')]"
  let ?n = "[''S'', ''B'', ''C'', ''D'']"
  let ?t = "[''a'', ''b'', ''+'', ''('', '')'', ''id'', ''$'']"
  have k: "\<forall>a\<in>set ?n. map_of ?f a \<noteq> None \<and> map_of example_gramer a \<noteq> None"
    by (simp add: example_gramer_def)
  from chart_cells[OF k, of "[]" ?t]
  obtain chart where r: "creat_chart example_gramer ?f [] ?n ?t = Inr chart"
    and cells: "\<forall>i<length ?n. \<forall>j<length ?t.
            getcell chart (i + 1) 0 = Inr (?n ! i)
            \<and> getcell chart 0 (j + 1) = Inr (?t ! j)
            \<and> getcell chart (i + 1) (j + 1) =
                Inr (if the (map_of ?f (?n ! i)) = ?t ! j
                     then the (map_of example_gramer (?n ! i)) else '' '')
            \<and> (getcell chart (i + 1) (j + 1) = Inr (the (map_of example_gramer (?n ! i)))
                 \<longleftrightarrow> the (map_of ?f (?n ! i)) = ?t ! j
                      \<or> the (map_of example_gramer (?n ! i)) = '' '')"
    by blast
  from cells[rule_format, of 0 0] have a: "getcell chart (Suc 0) (Suc 0) = Inr ''aBb''"
    by (simp add: example_gramer_def)
  from cells[rule_format, of 0 1] have b: "getcell chart (Suc 0) (Suc (Suc 0)) = Inr '' ''"
    by (simp add: example_gramer_def)
  have v: "creat_chart example_gramer ?f [] ?n ?t =
     Inr [['' '', ''a'', ''b'', ''+'', ''('', '')'', ''id'', ''$''],
          [''S'', ''aBb'', '' '', '' '', '' '', '' '', '' '', '' ''],
          [''B'', '' '', '' '', ''+C'', '' '', '' '', '' '', '' ''],
          [''C'', '' '', '' '', '' '', ''(D)'', '' '', '' '', '' ''],
          [''D'', '' '', '' '', '' '', '' '', '' '', ''id'', '' '']]"
    by code_simp
  from r a b v show ?thesis by blast
qed

text \<open>
  The claim itself fails for the grammar \<open>S \<rightarrow> ' '\<close>, where the production is one space:
  FIRST of \<open>S\<close> is the space, the terminals are the space and \<open>$\<close>, and the cell of \<open>S\<close>
  and \<open>$\<close> holds the space, which is the production of \<open>S\<close> although FIRST of \<open>S\<close> is
  not \<open>$\<close>, and which is not the empty string that \<open>parse\<close> tests for.
\<close>

theorem chart_cell_counterexample:
  "firsts [(''S'', '' '')] [''S''] = Some (Inr [(''S'', '' '')])
   \<and> get_terminals [(''S'', '' '')] [''S''] = ['' '', ''$'']
   \<and> creat_chart [(''S'', '' '')] [(''S'', '' '')] [(''S'', ''$'')] [''S''] ['' '', ''$''] =
       Inr [['' '', '' '', ''$''], [''S'', '' '', '' '']]
   \<and> getcell [['' '', '' '', ''$''], [''S'', '' '', '' '']] 1 2 = Inr '' ''
   \<and> map_of [(''S'', '' '')] ''S'' = Some '' ''
   \<and> '' '' \<noteq> ''$'' \<and> '' '' \<noteq> []"
  by code_simp

section \<open>Blank cells and the driver\<close>

lemma index_Inr: "index xs x = Inr i \<Longrightarrow> i < length xs \<and> xs ! i = x"
proof (induction xs arbitrary: i)
  case Nil
  then show ?case by simp
next
  case (Cons y ys)
  show ?case
  proof (cases "y = x")
    case True
    with Cons.prems show ?thesis by simp
  next
    case False
    with Cons.prems obtain k where k: "index ys x = Inr k" "i = Suc k"
      by (auto split: sum.splits)
    from Cons.IH[OF k(1)] k(2) show ?thesis by simp
  qed
qed

lemma step_never_cell:
  assumes cells: "\<forall>i<length none_terminals. \<forall>j<length terminals. getcell chart (i + 1) (j + 1) \<noteq> Inr []"
    and st: "step chart none_terminals terminals string c = Inl (Inr (e, c'))"
  shows "e \<noteq> Not_accepted_cell"
proof
  assume e: "e = Not_accepted_cell"
  from st e obtain tos rest a row t where
    "index none_terminals tos = Inr a" "item chart (a + 1) = Inr row"
    "index terminals (pointer c) = Inr t" "item row (t + 1) = Inr []"
    unfolding step_def
    by (auto split: list.splits if_splits sum.splits)
  then have "a < length none_terminals" "t < length terminals" "getcell chart (a + 1) (t + 1) = Inr []"
    by (auto dest: index_Inr simp: getcell_def)
  with cells show False by blast
qed

lemma drive_never_cell:
  assumes "drive chart none_terminals terminals string c = Some r"
  shows "(\<forall>i<length none_terminals. \<forall>j<length terminals. getcell chart (i + 1) (j + 1) \<noteq> Inr [])
         \<longrightarrow> (\<forall>e c'. r = Inr (e, c') \<longrightarrow> e \<noteq> Not_accepted_cell)"
proof (rule drive.raw_induct
    [where P = "\<lambda>chart none_terminals terminals string c r.
       (\<forall>i<length none_terminals. \<forall>j<length terminals. getcell chart (i + 1) (j + 1) \<noteq> Inr [])
         \<longrightarrow> (\<forall>e c'. r = Inr (e, c') \<longrightarrow> e \<noteq> Not_accepted_cell)",
     OF _ assms])
  fix drive' :: "string list list \<Rightarrow> string list \<Rightarrow> string list \<Rightarrow> string list \<Rightarrow> config
     \<Rightarrow> (error + exit \<times> config) option"
    and chart none_terminals terminals string c r
  assume IH: "\<And>chart none_terminals terminals string c r.
       drive' chart none_terminals terminals string c = Some r \<Longrightarrow>
       (\<forall>i<length none_terminals. \<forall>j<length terminals. getcell chart (i + 1) (j + 1) \<noteq> Inr [])
         \<longrightarrow> (\<forall>e c'. r = Inr (e, c') \<longrightarrow> e \<noteq> Not_accepted_cell)"
    and body: "(case step chart none_terminals terminals string c of
        Inl r \<Rightarrow> Some r
      | Inr c' \<Rightarrow> drive' chart none_terminals terminals string c') = Some r"
  show "(\<forall>i<length none_terminals. \<forall>j<length terminals. getcell chart (i + 1) (j + 1) \<noteq> Inr [])
         \<longrightarrow> (\<forall>e c'. r = Inr (e, c') \<longrightarrow> e \<noteq> Not_accepted_cell)"
  proof (cases "step chart none_terminals terminals string c")
    case (Inl x)
    with body have "x = r" by simp
    with Inl step_never_cell[of none_terminals terminals chart string c] show ?thesis
      by blast
  next
    case (Inr c2)
    with body have "drive' chart none_terminals terminals string c2 = Some r" by simp
    from IH[OF this] show ?thesis .
  qed
qed

lemma blank_cells_general:
  assumes "\<forall>a\<in>set none_terminals.
             \<exists>fv gv. map_of firsts_d a = Some fv \<and> map_of gramer a = Some gv \<and> gv \<noteq> []"
    and made: "creat_chart gramer firsts_d follows_d none_terminals terminals = Inr chart"
  shows "\<forall>i<length none_terminals. \<forall>j<length terminals.
            (the (map_of firsts_d (none_terminals ! i)) \<noteq> terminals ! j
               \<longrightarrow> getcell chart (i + 1) (j + 1) = Inr '' '')
            \<and> getcell chart (i + 1) (j + 1) \<noteq> Inr []"
    and "\<forall>string e c'.
            parse_run string chart none_terminals terminals = Some (Inr (e, c'))
              \<longrightarrow> e \<noteq> Not_accepted_cell"
    and "\<forall>string c tos rest i j.
            stack c = tos # rest \<and> tos \<noteq> ''$'' \<and> index none_terminals tos = Inr i
            \<and> index terminals (pointer c) = Inr j \<and> the (map_of firsts_d tos) \<noteq> pointer c
              \<longrightarrow> step chart none_terminals terminals string c = Inr (c\<lparr>stack := '' '' # rest\<rparr>)"
    and "\<forall>string c rest.
            stack c = '' '' # rest \<and> '' '' \<notin> set none_terminals \<and> pointer c \<noteq> '' ''
              \<longrightarrow> step chart none_terminals terminals string c = Inl (Inr (Not_accepted_top, c))"
proof -
  have keys: "\<forall>a\<in>set none_terminals. map_of firsts_d a \<noteq> None \<and> map_of gramer a \<noteq> None"
    using assms(1) by fastforce
  have ne: "the (map_of gramer (none_terminals ! i)) \<noteq> []" if "i < length none_terminals" for i
  proof -
    from that have "none_terminals ! i \<in> set none_terminals" by simp
    with assms(1) obtain gv where "map_of gramer (none_terminals ! i) = Some gv" "gv \<noteq> []"
      by blast
    then show ?thesis by simp
  qed
  from creat_chart_cells[OF keys, of follows_d terminals] made
  have d: "dims (length none_terminals) (length terminals) chart"
    and x: "\<forall>i<length none_terminals. \<forall>j<length terminals.
            chart ! (i + 1) ! (j + 1) = cell_of gramer firsts_d (none_terminals ! i) (terminals ! j)"
    by auto
  have g: "getcell chart (i + 1) (j + 1) =
             Inr (cell_of gramer firsts_d (none_terminals ! i) (terminals ! j))"
    if "i < length none_terminals" "j < length terminals" for i j
    using that x getcell_dims[OF d, of "i + 1" "j + 1"] by simp
  show cells: "\<forall>i<length none_terminals. \<forall>j<length terminals.
            (the (map_of firsts_d (none_terminals ! i)) \<noteq> terminals ! j
               \<longrightarrow> getcell chart (i + 1) (j + 1) = Inr '' '')
            \<and> getcell chart (i + 1) (j + 1) \<noteq> Inr []"
    using g ne by (simp add: cell_of_def)
  then have nonempty: "\<forall>i<length none_terminals. \<forall>j<length terminals.
            getcell chart (i + 1) (j + 1) \<noteq> Inr []"
    by blast
  have dr: "e \<noteq> Not_accepted_cell"
    if "drive chart none_terminals terminals string c = Some (Inr (e, c'))" for string c e c'
    using drive_never_cell[OF that] nonempty by blast
  show "\<forall>string e c'.
            parse_run string chart none_terminals terminals = Some (Inr (e, c'))
              \<longrightarrow> e \<noteq> Not_accepted_cell"
    using dr unfolding parse_run_def by (auto split: sum.splits)
  have push: "step chart none_terminals terminals string c = Inr (c\<lparr>stack := '' '' # rest\<rparr>)"
    if s: "stack c = tos # rest" "tos \<noteq> ''$''" "index none_terminals tos = Inr i"
      "index terminals (pointer c) = Inr j" "the (map_of firsts_d tos) \<noteq> pointer c"
    for string c tos rest i j
  proof -
    from index_Inr[OF s(3)] index_Inr[OF s(4)]
    have ij: "i < length none_terminals" "none_terminals ! i = tos"
      "j < length terminals" "terminals ! j = pointer c" by simp_all
    from g[OF ij(1) ij(3)] ij s(5) have "getcell chart (i + 1) (j + 1) = Inr '' ''"
      by (simp add: cell_of_def)
    then obtain row where "item chart (i + 1) = Inr row" "item row (j + 1) = Inr '' ''"
      by (auto simp: getcell_def split: sum.splits)
    moreover from ij have "tos \<in> set none_terminals" by auto
    ultimately show ?thesis using s by (simp add: step_def)
  qed
  then show "\<forall>string c tos rest i j.
            stack c = tos # rest \<and> tos \<noteq> ''$'' \<and> index none_terminals tos = Inr i
            \<and> index terminals (pointer c) = Inr j \<and> the (map_of firsts_d tos) \<noteq> pointer c
              \<longrightarrow> step chart none_terminals terminals string c = Inr (c\<lparr>stack := '' '' # rest\<rparr>)"
    by blast
  show "\<forall>string c rest.
            stack c = '' '' # rest \<and> '' '' \<notin> set none_terminals \<and> pointer c \<noteq> '' ''
              \<longrightarrow> step chart none_terminals terminals string c = Inl (Inr (Not_accepted_top, c))"
    by (auto simp: step_def)
qed

lemma first_of_nonempty: "first_of gramer none_terminals v = Some (Inr x) \<Longrightarrow> v \<noteq> []"
  by (auto simp: first_of_def item_def split: if_splits)

lemma update_keys: "fst ` set (AList.update k v al) = insert k (fst ` set al)"
  by (induction al) auto

lemma firsts_loop_Inr:
  "firsts_loop gramer none_terminals rest d = Some (Inr d') \<Longrightarrow>
   (\<forall>(t, v)\<in>set rest. v \<noteq> [] \<and> t \<in> fst ` set d') \<and> fst ` set d \<subseteq> fst ` set d'"
proof (induction rest arbitrary: d)
  case Nil
  then show ?case by simp
next
  case (Cons a rest)
  obtain t v where a: "a = (t, v)" by (cases a)
  from Cons.prems obtain x where x: "first_of gramer none_terminals v = Some (Inr x)"
    and r: "firsts_loop gramer none_terminals rest (AList.update t x d) = Some (Inr d')"
    by (auto simp: a split: option.splits sum.splits)
  from Cons.IH[OF r] first_of_nonempty[OF x] show ?case
    by (auto simp: a update_keys)
qed

lemma blank_cell_run:
  assumes push: "step chart none_terminals terminals string c = Inr (c\<lparr>stack := '' '' # rest\<rparr>)"
    and "'' '' \<notin> set none_terminals" and "pointer c \<noteq> '' ''"
  shows "drive chart none_terminals terminals string c =
           Some (Inr (Not_accepted_top, c\<lparr>stack := '' '' # rest\<rparr>))"
proof -
  have "step chart none_terminals terminals string (c\<lparr>stack := '' '' # rest\<rparr>) =
          Inl (Inr (Not_accepted_top, c\<lparr>stack := '' '' # rest\<rparr>))"
    using assms(2,3) by (auto simp: step_def)
  then have "drive chart none_terminals terminals string (c\<lparr>stack := '' '' # rest\<rparr>) =
          Some (Inr (Not_accepted_top, c\<lparr>stack := '' '' # rest\<rparr>))"
    by (subst drive.simps) simp
  with push show ?thesis by (subst drive.simps) simp
qed

lemma program_never_cell_exit:
  assumes "analyse raw = Some (Inr a)"
  shows "\<forall>a'\<in>set (an_none_terminals a).
           \<exists>fv gv. map_of (an_first a) a' = Some fv \<and> map_of (an_gramer a) a' = Some gv \<and> gv \<noteq> []"
    and "creat_chart (an_gramer a) (an_first a) (an_follow a) (an_none_terminals a) (an_terminals a) =
           Inr (an_chart a)"
    and "program raw string = Some (Inr (e, c')) \<Longrightarrow> e \<noteq> Not_accepted_cell"
proof -
  let ?G = "correction raw"
  let ?n = "get_none_terminals ?G"
  let ?t = "get_terminals ?G ?n"
  from assms obtain first follow chart where
    f: "firsts ?G ?n = Some (Inr first)"
    and c: "creat_chart ?G first follow ?n ?t = Inr chart"
    and a: "a = \<lparr>an_gramer = ?G, an_none_terminals = ?n, an_first = first, an_follow = follow,
                 an_terminals = ?t, an_chart = chart\<rparr>"
    unfolding analyse_def Let_def
    by (auto split: option.splits sum.splits)
  from firsts_loop_Inr[OF f[unfolded firsts_def]]
  have fl: "\<forall>(t, v)\<in>set ?G. v \<noteq> [] \<and> t \<in> fst ` set first" by simp
  have keys: "\<forall>x\<in>set ?n. \<exists>fv gv. map_of first x = Some fv \<and> map_of ?G x = Some gv \<and> gv \<noteq> []"
  proof
    fix x assume "x \<in> set ?n"
    then have xk: "x \<in> fst ` set ?G" by (simp add: get_none_terminals_def)
    then obtain gv where gv: "map_of ?G x = Some gv"
      by (metis map_of_eq_None_iff not_Some_eq)
    then have "(x, gv) \<in> set ?G" by (rule map_of_SomeD)
    with fl have "gv \<noteq> []" "x \<in> fst ` set first" by auto
    then obtain fv where "map_of first x = Some fv"
      by (metis map_of_eq_None_iff not_Some_eq)
    with gv \<open>gv \<noteq> []\<close> show "\<exists>fv gv. map_of first x = Some fv \<and> map_of ?G x = Some gv \<and> gv \<noteq> []"
      by blast
  qed
  then show "\<forall>a'\<in>set (an_none_terminals a).
           \<exists>fv gv. map_of (an_first a) a' = Some fv \<and> map_of (an_gramer a) a' = Some gv \<and> gv \<noteq> []"
    by (simp add: a)
  show "creat_chart (an_gramer a) (an_first a) (an_follow a) (an_none_terminals a) (an_terminals a) =
           Inr (an_chart a)"
    using c by (simp add: a)
  assume "program raw string = Some (Inr (e, c'))"
  with assms have "parse_run string chart ?n ?t = Some (Inr (e, c'))"
    by (simp add: program_def a)
  with blank_cells_general(2)[OF keys c] show "e \<noteq> Not_accepted_cell" by blast
qed

text \<open>
  Claim C10, as the code has it. Take any table that \<open>creat_chart\<close> returns for a grammar
  in which every nonterminal has a FIRST entry and a production that is not empty (every
  table that the program builds is such a table, since \<open>firsts\<close> has returned before).
  A cell that the FIRST match did not select holds the one-character string of a space
  and no cell is the empty string. So \<open>parse\<close> never leaves by the return that tests the
  cell for the empty string, from whatever configuration the loop starts. For a
  nonterminal on top of the stack and a lookahead that is not its FIRST, the turn of the
  loop pushes the space in place of the nonterminal; and when no nonterminal is named by
  the space and the lookahead is not the space, the loop then leaves by the return of the
  terminal mismatch, with the space on top of the stack.
\<close>

theorem blank_cell_rejects_by_mismatch:
  assumes "\<forall>a\<in>set none_terminals.
             \<exists>fv gv. map_of firsts_d a = Some fv \<and> map_of gramer a = Some gv \<and> gv \<noteq> []"
    and "creat_chart gramer firsts_d follows_d none_terminals terminals = Inr chart"
  shows "(\<forall>i<length none_terminals. \<forall>j<length terminals.
            (the (map_of firsts_d (none_terminals ! i)) \<noteq> terminals ! j
               \<longrightarrow> getcell chart (i + 1) (j + 1) = Inr '' '')
            \<and> getcell chart (i + 1) (j + 1) \<noteq> Inr [])
      \<and> (\<forall>string c e c'.
            drive chart none_terminals terminals string c = Some (Inr (e, c'))
              \<longrightarrow> e \<noteq> Not_accepted_cell)
      \<and> (\<forall>string e c'.
            parse_run string chart none_terminals terminals = Some (Inr (e, c'))
              \<longrightarrow> e \<noteq> Not_accepted_cell)
      \<and> (\<forall>string c tos rest i j.
            stack c = tos # rest \<and> tos \<noteq> ''$'' \<and> index none_terminals tos = Inr i
            \<and> index terminals (pointer c) = Inr j \<and> the (map_of firsts_d tos) \<noteq> pointer c
              \<longrightarrow> step chart none_terminals terminals string c = Inr (c\<lparr>stack := '' '' # rest\<rparr>)
                  \<and> ('' '' \<notin> set none_terminals \<and> pointer c \<noteq> '' ''
                       \<longrightarrow> drive chart none_terminals terminals string c =
                             Some (Inr (Not_accepted_top, c\<lparr>stack := '' '' # rest\<rparr>))))"
proof -
  note gen = blank_cells_general[OF assms]
  have keys: "\<forall>a\<in>set none_terminals. map_of firsts_d a \<noteq> None \<and> map_of gramer a \<noteq> None"
    using assms(1) by fastforce
  have nonempty: "\<forall>i<length none_terminals. \<forall>j<length terminals.
            getcell chart (i + 1) (j + 1) \<noteq> Inr []"
    using gen(1) by blast
  have dr: "\<forall>string c e c'.
            drive chart none_terminals terminals string c = Some (Inr (e, c'))
              \<longrightarrow> e \<noteq> Not_accepted_cell"
    using drive_never_cell nonempty by blast
  have run: "step chart none_terminals terminals string c = Inr (c\<lparr>stack := '' '' # rest\<rparr>)
                  \<and> ('' '' \<notin> set none_terminals \<and> pointer c \<noteq> '' ''
                       \<longrightarrow> drive chart none_terminals terminals string c =
                             Some (Inr (Not_accepted_top, c\<lparr>stack := '' '' # rest\<rparr>)))"
    if "stack c = tos # rest \<and> tos \<noteq> ''$'' \<and> index none_terminals tos = Inr i
            \<and> index terminals (pointer c) = Inr j \<and> the (map_of firsts_d tos) \<noteq> pointer c"
    for string c tos rest i j
  proof -
    from gen(3) that
    have p: "step chart none_terminals terminals string c = Inr (c\<lparr>stack := '' '' # rest\<rparr>)"
      by blast
    with blank_cell_run[OF p] show ?thesis by blast
  qed
  from gen(1) dr gen(2) run show ?thesis by blast
qed

theorem blank_cell_rejects_by_mismatch_witness:
  "creat_chart example_gramer [(''S'', ''a''), (''B'', ''+''), (''C'', ''(''), (''D'', ''id'')] []
      [''S'', ''B'', ''C'', ''D''] [''a'', ''b'', ''+'', ''('', '')'', ''id'', ''$''] =
     Inr [['' '', ''a'', ''b'', ''+'', ''('', '')'', ''id'', ''$''],
          [''S'', ''aBb'', '' '', '' '', '' '', '' '', '' '', '' ''],
          [''B'', '' '', '' '', ''+C'', '' '', '' '', '' '', '' ''],
          [''C'', '' '', '' '', '' '', ''(D)'', '' '', '' '', '' ''],
          [''D'', '' '', '' '', '' '', '' '', '' '', ''id'', '' '']]
   \<and> drive [['' '', ''a'', ''b'', ''+'', ''('', '')'', ''id'', ''$''],
            [''S'', ''aBb'', '' '', '' '', '' '', '' '', '' '', '' ''],
            [''B'', '' '', '' '', ''+C'', '' '', '' '', '' '', '' ''],
            [''C'', '' '', '' '', '' '', ''(D)'', '' '', '' '', '' ''],
            [''D'', '' '', '' '', '' '', '' '', '' '', ''id'', '' '']]
        [''S'', ''B'', ''C'', ''D''] [''a'', ''b'', ''+'', ''('', '')'', ''id'', ''$'']
        [''b'', ''$''] \<lparr>stack = [''S'', ''$''], cursor = 0, pointer = ''b''\<rparr> =
       Some (Inr (Not_accepted_top, \<lparr>stack = ['' '', ''$''], cursor = 0, pointer = ''b''\<rparr>))
   \<and> program example_gramer ''b'' =
        Some (Inr (Not_accepted_top, \<lparr>stack = ['' '', ''$''], cursor = 0, pointer = ''b''\<rparr>))"
proof -
  let ?f = "[(''S'', ''a''), (''B'', ''+''), (''C'', ''(''), (''D'', ''id'')]"
  let ?n = "[''S'', ''B'', ''C'', ''D'']"
  let ?t = "[''a'', ''b'', ''+'', ''('', '')'', ''id'', ''$'']"
  let ?chart = "[['' '', ''a'', ''b'', ''+'', ''('', '')'', ''id'', ''$''],
          [''S'', ''aBb'', '' '', '' '', '' '', '' '', '' '', '' ''],
          [''B'', '' '', '' '', ''+C'', '' '', '' '', '' '', '' ''],
          [''C'', '' '', '' '', '' '', ''(D)'', '' '', '' '', '' ''],
          [''D'', '' '', '' '', '' '', '' '', '' '', ''id'', '' '']]"
  have k: "\<forall>a\<in>set ?n. \<exists>fv gv. map_of ?f a = Some fv \<and> map_of example_gramer a = Some gv \<and> gv \<noteq> []"
    by (simp add: example_gramer_def)
  have m: "creat_chart example_gramer ?f [] ?n ?t = Inr ?chart"
    by code_simp
  have pr: "program example_gramer ''b'' =
        Some (Inr (Not_accepted_top, \<lparr>stack = ['' '', ''$''], cursor = 0, pointer = ''b''\<rparr>))"
    by code_simp
  from blank_cell_rejects_by_mismatch[OF k m]
  have "\<forall>string c tos rest i j.
            stack c = tos # rest \<and> tos \<noteq> ''$'' \<and> index ?n tos = Inr i
            \<and> index ?t (pointer c) = Inr j \<and> the (map_of ?f tos) \<noteq> pointer c
              \<longrightarrow> step ?chart ?n ?t string c = Inr (c\<lparr>stack := '' '' # rest\<rparr>)
                  \<and> ('' '' \<notin> set ?n \<and> pointer c \<noteq> '' ''
                       \<longrightarrow> drive ?chart ?n ?t string c =
                             Some (Inr (Not_accepted_top, c\<lparr>stack := '' '' # rest\<rparr>)))"
    by blast
  from this[rule_format, of "\<lparr>stack = [''S'', ''$''], cursor = 0, pointer = ''b''\<rparr>" "''S''" "[''$'']" 0 1
      "[''b'', ''$'']"]
  have "drive ?chart ?n ?t [''b'', ''$''] \<lparr>stack = [''S'', ''$''], cursor = 0, pointer = ''b''\<rparr> =
        Some (Inr (Not_accepted_top, \<lparr>stack = ['' '', ''$''], cursor = 0, pointer = ''b''\<rparr>))"
    by simp
  with m pr show ?thesis by simp
qed

text \<open>
  The claim itself fails in two ways. For the grammar \<open>S \<rightarrow> a b\<close> (with a space between
  \<open>a\<close> and \<open>b\<close>) the space is a terminal and FIRST of \<open>S\<close> is \<open>a\<close>; on the input of one
  space the cell of \<open>S\<close> and the space is not selected, the space that it holds is pushed,
  matches the lookahead and is consumed, and the program accepts: no rejection occurs.
  And \<open>creat_chart\<close> puts an empty production into the selected cell: for the table of
  \<open>S \<rightarrow> \<close> (nothing on the right) with FIRST of \<open>S\<close> given as \<open>$\<close>, \<open>parse\<close> leaves by the
  return that tests the cell for the empty string.
\<close>

theorem blank_cell_accepts_counterexample:
  "analyse [(''S'', ''a b'')] =
     Some (Inr \<lparr>an_gramer = [(''S'', ''a b'')], an_none_terminals = [''S''],
                an_first = [(''S'', ''a'')], an_follow = [(''S'', ''$'')],
                an_terminals = [''a'', '' '', ''b'', ''$''],
                an_chart = [['' '', ''a'', '' '', ''b'', ''$''],
                            [''S'', ''a b'', '' '', '' '', '' '']]\<rparr>)
   \<and> program [(''S'', ''a b'')] '' '' =
       Some (Inr (Successful_parse, \<lparr>stack = [''$''], cursor = 1, pointer = ''$''\<rparr>))
   \<and> creat_chart [(''S'', [])] [(''S'', ''$'')] [] [''S''] [''$''] =
       Inr [['' '', ''$''], [''S'', []]]
   \<and> parse_run [] [['' '', ''$''], [''S'', []]] [''S''] [''$''] =
       Some (Inr (Not_accepted_cell, \<lparr>stack = [''S'', ''$''], cursor = 0, pointer = ''$''\<rparr>))"
  by code_simp

section \<open>FIRST is a single terminal\<close>

lemma lead_edges_mem:
  "(t, c # v) \<in> set gramer \<Longrightarrow> [c] \<in> set none_terminals \<Longrightarrow>
   ([c], t) \<in> set (lead_edges gramer none_terminals)"
  by (induction gramer none_terminals rule: lead_edges.induct) auto

lemma chain_total:
  assumes wf: "wf (set (lead_edges gramer none_terminals))"
    and ne: "\<forall>(t, v)\<in>set gramer. v \<noteq> []"
    and keys: "set none_terminals \<subseteq> fst ` set gramer"
  shows "tg \<in> set none_terminals \<Longrightarrow>
         \<exists>x. chain gramer none_terminals tg = Some (Inr x) \<and> single_terminal none_terminals x"
  using wf
proof (induction tg rule: wf_induct_rule)
  case (less tg)
  from less.prems keys obtain v where v: "map_of gramer tg = Some v"
    by (metis map_of_eq_None_iff not_Some_eq subsetD)
  then have mem: "(tg, v) \<in> set gramer" by (rule map_of_SomeD)
  with ne obtain c v' where cv: "v = c # v'" by (cases v) auto
  show ?case
  proof (cases "[c] \<in> set none_terminals")
    case True
    from lead_edges_mem[OF mem[unfolded cv] True] less.IH[OF _ True]
    obtain x where "chain gramer none_terminals [c] = Some (Inr x)" "single_terminal none_terminals x"
      by blast
    with True v cv show ?thesis
      by (subst chain.simps) (simp add: getitem_def item_def)
  next
    case False
    with v cv show ?thesis
      by (subst chain.simps) (auto simp: getitem_def item_def single_terminal_def)
  qed
qed

lemma first_of_total:
  assumes "wf (set (lead_edges gramer none_terminals))"
    and "\<forall>(t, v)\<in>set gramer. v \<noteq> []"
    and "set none_terminals \<subseteq> fst ` set gramer"
    and "v \<noteq> []"
  shows "\<exists>x. first_of gramer none_terminals v = Some (Inr x) \<and> single_terminal none_terminals x"
proof -
  from assms(4) obtain c v' where cv: "v = c # v'" by (cases v) auto
  show ?thesis
  proof (cases "take 2 v = ''id''")
    case True
    then show ?thesis by (simp add: first_of_def single_terminal_def)
  next
    case False
    show ?thesis
    proof (cases "[c] \<in> set none_terminals")
      case True
      from chain_total[OF assms(1-3) True] False True cv show ?thesis
        by (auto simp: first_of_def item_def)
    next
      case nt: False
      with False cv show ?thesis
        by (simp add: first_of_def item_def single_terminal_def)
    qed
  qed
qed

lemma update_subset: "set (AList.update k v al) \<subseteq> insert (k, v) (set al)"
  by (induction al) auto

lemma firsts_loop_total:
  assumes "\<forall>(t, v)\<in>set rest. \<exists>x. first_of gramer none_terminals v = Some (Inr x) \<and> P x"
    and "distinct (map fst rest)" and "fst ` set d \<inter> fst ` set rest = {}"
    and "\<forall>(t, x)\<in>set d. P x"
  shows "\<exists>d'. firsts_loop gramer none_terminals rest d = Some (Inr d')
            \<and> map fst d' = map fst d @ map fst rest \<and> (\<forall>(t, x)\<in>set d'. P x)"
  using assms
proof (induction rest arbitrary: d)
  case Nil
  then show ?case by simp
next
  case (Cons a rest)
  obtain t v where a: "a = (t, v)" by (cases a)
  from Cons.prems(1) obtain x where x: "first_of gramer none_terminals v = Some (Inr x)" "P x"
    by (auto simp: a)
  from Cons.prems(2,3) have t: "t \<notin> fst ` set d" "t \<notin> fst ` set rest" "distinct (map fst rest)"
    by (auto simp: a)
  have u: "AList.update t x d = d @ [(t, x)]" using t(1) by (rule update_new)
  have 1: "\<forall>(t, v)\<in>set rest. \<exists>x. first_of gramer none_terminals v = Some (Inr x) \<and> P x"
    using Cons.prems(1) by simp
  have 3: "fst ` set (AList.update t x d) \<inter> fst ` set rest = {}"
    using Cons.prems(3) t(2) by (auto simp: u a)
  have 4: "\<forall>(t, x)\<in>set (AList.update t x d). P x"
    using Cons.prems(4) x(2) by (auto simp: u)
  from Cons.IH[OF 1 t(3) 3 4] x(1) show ?case
    by (auto simp: a u)
qed

text \<open>
  Claim C6, as the code has it. For a grammar (its keys distinct, as in a dictionary, and
  the nonterminals being its keys) in which no production is empty, no nonterminal is
  named \<open>id\<close> and the leading nonterminals form no cycle, \<open>firsts\<close> returns, with an entry
  for every nonterminal in the order of the grammar, and every entry is a single terminal:
  it is \<open>id\<close> or one character, and it is not a nonterminal.
\<close>

theorem firsts_single_terminal:
  assumes "distinct (map fst gramer)"
    and "\<forall>(t, v)\<in>set gramer. v \<noteq> []"
    and "''id'' \<notin> set (get_none_terminals gramer)"
    and "acyclic (set (lead_edges gramer (get_none_terminals gramer)))"
  shows "\<exists>first. firsts gramer (get_none_terminals gramer) = Some (Inr first)
           \<and> map fst first = get_none_terminals gramer
           \<and> (\<forall>(A, x)\<in>set first.
                 (x = ''id'' \<or> (\<exists>c. x = [c])) \<and> x \<notin> set (get_none_terminals gramer))"
proof -
  let ?n = "get_none_terminals gramer"
  have "wf (set (lead_edges gramer ?n))"
    using assms(4) by (simp add: finite_acyclic_wf)
  moreover have "set ?n \<subseteq> fst ` set gramer" by (simp add: get_none_terminals_def)
  ultimately have "\<forall>(t, v)\<in>set gramer.
      \<exists>x. first_of gramer ?n v = Some (Inr x) \<and> single_terminal ?n x"
    using first_of_total[of gramer ?n] assms(2) by fast
  from firsts_loop_total[OF this assms(1), of "[]"]
  obtain first where f: "firsts_loop gramer ?n gramer [] = Some (Inr first)"
    and k: "map fst first = map fst gramer"
    and v: "\<forall>(t, x)\<in>set first. single_terminal ?n x"
    by auto
  have "(x = ''id'' \<or> (\<exists>c. x = [c])) \<and> x \<notin> set ?n" if "(A, x) \<in> set first" for A x
  proof -
    from v that have "single_terminal ?n x" by auto
    then show ?thesis using assms(3) by (auto simp: single_terminal_def)
  qed
  with f k show ?thesis
    by (auto simp: firsts_def get_none_terminals_def)
qed

theorem firsts_single_terminal_witness:
  "distinct (map fst [(''S'', ''Ab''), (''A'', ''Bc''), (''B'', ''id'')])
   \<and> ''id'' \<notin> set (get_none_terminals [(''S'', ''Ab''), (''A'', ''Bc''), (''B'', ''id'')])
   \<and> lead_edges [(''S'', ''Ab''), (''A'', ''Bc''), (''B'', ''id'')] [''S'', ''A'', ''B''] =
       [(''A'', ''S''), (''B'', ''A'')]
   \<and> firsts [(''S'', ''Ab''), (''A'', ''Bc''), (''B'', ''id'')] [''S'', ''A'', ''B''] =
       Some (Inr [(''S'', ''id''), (''A'', ''id''), (''B'', ''id'')])
   \<and> (\<exists>first. firsts [(''S'', ''Ab''), (''A'', ''Bc''), (''B'', ''id'')] [''S'', ''A'', ''B''] =
         Some (Inr first) \<and> map fst first = [''S'', ''A'', ''B''])"
proof -
  let ?g = "[(''S'', ''Ab''), (''A'', ''Bc''), (''B'', ''id'')]"
  have d: "distinct (map fst ?g)" by simp
  have n: "\<forall>(t, v)\<in>set ?g. v \<noteq> []" by simp
  have i: "''id'' \<notin> set (get_none_terminals ?g)" by (simp add: get_none_terminals_def)
  have e: "lead_edges ?g (get_none_terminals ?g) = [(''A'', ''S''), (''B'', ''A'')]"
    by (simp add: get_none_terminals_def)
  have a: "acyclic (set (lead_edges ?g (get_none_terminals ?g)))"
    unfolding e by (simp add: acyclic_insert rtrancl_insert wf_acyclic)
  have v: "firsts ?g [''S'', ''A'', ''B''] = Some (Inr [(''S'', ''id''), (''A'', ''id''), (''B'', ''id'')])"
    by code_simp
  from firsts_single_terminal[OF d n i a] d i e v show ?thesis
    by (simp add: get_none_terminals_def)
qed

text \<open>
  The claim for every corrected grammar fails in two ways. When a production is empty:
  the correction of \<open>S \<rightarrow> A\<close>, \<open>A \<rightarrow> ep\<close> is \<open>S \<rightarrow> \<close> with nothing on the right, no
  nonterminal leads a production, and \<open>firsts\<close> raises \<open>IndexError\<close> on the first symbol
  of the empty production. And when a nonterminal is named \<open>id\<close>: for \<open>S \<rightarrow> idb\<close>,
  \<open>id \<rightarrow> a\<close> no production is empty or led by a nonterminal, and FIRST of \<open>S\<close> is \<open>id\<close>,
  which is a nonterminal of the grammar.
\<close>

theorem firsts_empty_production_counterexample:
  "correction [(''S'', ''A''), (''A'', ''ep'')] = [(''S'', [])]
   \<and> lead_edges [(''S'', [])] (get_none_terminals [(''S'', [])]) = []
   \<and> firsts [(''S'', [])] (get_none_terminals [(''S'', [])]) = Some (Inl IndexError)
   \<and> correction [(''S'', ''idb''), (''id'', ''a'')] = [(''S'', ''idb''), (''id'', ''a'')]
   \<and> lead_edges [(''S'', ''idb''), (''id'', ''a'')]
        (get_none_terminals [(''S'', ''idb''), (''id'', ''a'')]) = []
   \<and> firsts [(''S'', ''idb''), (''id'', ''a'')]
        (get_none_terminals [(''S'', ''idb''), (''id'', ''a'')]) =
       Some (Inr [(''S'', ''id''), (''id'', ''a'')])
   \<and> ''id'' \<in> set (get_none_terminals [(''S'', ''idb''), (''id'', ''a'')])"
  by code_simp

section \<open>The FOLLOW strings\<close>

lemma fields_nonempty: "split_commas s \<noteq> []"
  by (induction s) auto

lemma fields_append_comma: "split_commas (xs @ CHR '','' # ys) = split_commas xs @ split_commas ys"
  by (induction xs) (auto simp: fields_nonempty)

lemma fields_plain: "CHR '','' \<notin> set x \<Longrightarrow> split_commas x = [x]"
  by (induction x) auto

lemma entries_append_comma: "entries (xs @ CHR '','' # ys) = entries xs @ entries ys"
  by (simp add: entries_def fields_append_comma)

lemma entries_Nil: "entries [] = []"
  by (simp add: entries_def)

lemma entries_plain: "CHR '','' \<notin> set x \<Longrightarrow> x \<noteq> [] \<Longrightarrow> entries x = [x]"
  by (simp add: entries_def fields_plain)

lemma entries_comma_end: "entries (xs @ '','') = entries xs"
  using entries_append_comma[of xs "[]"] by (simp add: entries_Nil)

lemma entries_after_comma:
  assumes "s = [] \<or> last s = CHR '',''"
  shows "entries (s @ t) = entries s @ entries t"
proof (cases "s = []")
  case True
  then show ?thesis by (simp add: entries_Nil)
next
  case False
  with assms obtain s' where s': "s = s' @ '',''"
    by (metis append_butlast_last_id)
  have "entries (s @ t) = entries s' @ entries t"
    using entries_append_comma[of s' t] by (simp add: s')
  then show ?thesis by (simp add: s' entries_comma_end)
qed

lemma contains_Nil: "contains s []"
  by (induction s) auto

lemma hd_fields_prefix: "prefix (hd (split_commas s)) s"
  by (induction s) auto

lemma fields_contains: "e \<in> set (split_commas s) \<Longrightarrow> contains s e"
proof (induction s arbitrary: e)
  case Nil
  then show ?case by simp
next
  case (Cons c cs)
  show ?case
  proof (cases "c = CHR '',''")
    case True
    with Cons show ?thesis by (auto simp: contains_Nil)
  next
    case False
    with Cons.prems have "e = c # hd (split_commas cs) \<or> e \<in> set (tl (split_commas cs))" by simp
    then show ?thesis
    proof
      assume "e = c # hd (split_commas cs)"
      then show ?thesis using hd_fields_prefix[of cs] by simp
    next
      assume "e \<in> set (tl (split_commas cs))"
      then have "e \<in> set (split_commas cs)" by (metis list.set_sel(2) tl_Nil)
      from Cons.IH[OF this] show ?thesis by simp
    qed
  qed
qed

lemma entries_contains: "e \<in> set (entries s) \<Longrightarrow> contains s e"
  by (simp add: entries_def fields_contains)

lemma contains_sublist: "contains s r \<longleftrightarrow> sublist r s"
  by (induction s) (auto simp: sublist_Cons_right)

lemma contains_left: "contains s (x @ y) \<Longrightarrow> contains s x"
  unfolding contains_sublist by (metis sublist_appendI sublist_order.order_trans sublist_append_rightI)

lemma entries_chars: "e \<in> set (entries s) \<Longrightarrow> set e \<subseteq> set s"
  using entries_contains[of e s] unfolding contains_sublist by (rule set_mono_sublist)

lemma entries_one: "x = ''id'' \<or> (\<exists>c. x = [c]) \<Longrightarrow> entries x = [] \<or> entries x = [x]"
proof (elim disjE exE)
  assume "x = ''id''"
  then show ?thesis by (simp add: entries_def)
next
  fix c assume "x = [c]"
  then show ?thesis by (cases "c = CHR '',''") (simp_all add: entries_def)
qed

lemma ok2_add:
  assumes "ok2 old" "\<not> contains old x" "CHR ''$'' \<notin> set x" "x = ''id'' \<or> (\<exists>c. x = [c])"
  shows "ok2 (old @ x @ '','')"
proof -
  have "entries (old @ x @ '','') = entries old @ entries (x @ '','')"
    using assms(1) by (intro entries_after_comma) (simp add: ok2_def)
  then have e: "entries (old @ x @ '','') = entries old @ entries x"
    by (simp add: entries_comma_end)
  have "x \<notin> set (entries old)" using assms(2) entries_contains by blast
  with entries_one[OF assms(4)] assms(1) have "distinct (entries old @ entries x)"
    by (auto simp: ok2_def ok3_def)
  with assms(1,3) e show ?thesis by (simp add: ok2_def ok3_def)
qed

lemma ok3_add_id:
  assumes "ok3 old" "\<not> contains old ''i''"
  shows "ok3 (old @ '',id'')" and "old = [] \<Longrightarrow> ok3 (old @ ''id'')"
proof -
  have n: "''id'' \<notin> set (entries old)"
    using assms(2) entries_contains[of "''id''" old] contains_left[of old "''i''" "''d''"] by auto
  have "entries (old @ '',id'') = entries old @ [''id'']"
    using entries_append_comma[of old "''id''"] by (simp add: entries_plain)
  with n assms(1) show "ok3 (old @ '',id'')" by (simp add: ok3_def)
  show "old = [] \<Longrightarrow> ok3 (old @ ''id'')" by (simp add: ok3_def entries_plain)
qed

lemma ok3_add_char:
  assumes "ok3 old" "\<not> contains old [c]" "c \<noteq> CHR '',''" "c \<noteq> CHR ''$''"
  shows "ok3 (old @ '','' @ [c])" and "old = [] \<or> last old = CHR '','' \<Longrightarrow> ok3 (old @ [c])"
proof -
  have n: "[c] \<notin> set (entries old)" using assms(2) entries_contains by blast
  have p: "entries [c] = [[c]]" using assms(3) by (simp add: entries_plain)
  have "entries (old @ '','' @ [c]) = entries old @ [[c]]"
    using entries_append_comma[of old "[c]"] p by simp
  with n assms(1,4) show "ok3 (old @ '','' @ [c])" by (simp add: ok3_def)
  assume "old = [] \<or> last old = CHR '',''"
  from entries_after_comma[OF this, of "[c]"] p n assms(1,4) show "ok3 (old @ [c])"
    by (simp add: ok3_def)
qed

lemma update_keys_same: "k \<in> fst ` set al \<Longrightarrow> map fst (AList.update k v al) = map fst al"
  by (induction al) auto

lemma appended_refl: "appended F F"
  by (simp add: appended_def)

lemma appended_trans: "appended F G \<Longrightarrow> appended G H \<Longrightarrow> appended F H"
  unfolding appended_def by (metis (no_types, lifting) prefix_order.order_trans)

lemma appended_update:
  assumes "map_of F n = Some old"
  shows "appended F (AList.update n (old @ x) F)"
proof -
  from assms have "n \<in> fst ` set F" by (auto dest!: map_of_SomeD intro: rev_image_eqI)
  then have "map fst (AList.update n (old @ x) F) = map fst F" by (rule update_keys_same)
  with assms show ?thesis by (simp add: appended_def update_conv')
qed

lemma follow_after_flat:
  assumes "map_of F n = Some old" "i < length rhs"
    and "[(rhs @ ''|'') ! (i + 1)] \<in> set none_terminals \<Longrightarrow>
           map_of first [(rhs @ ''|'') ! (i + 1)] = Some f"
  shows "follow_after first none_terminals rhs n i F =
     (if [(rhs @ ''|'') ! (i + 1)] \<in> set none_terminals \<and> \<not> contains old f
      then Inr (AList.update n (old @ f @ '','') F)
      else if take 2 (drop (i + 1) (rhs @ ''|'')) = ''id'' \<and> \<not> contains old ''id''
      then Inr (AList.update n (old @ ''id'' @ '','') F)
      else if (rhs @ ''|'') ! (i + 1) \<noteq> CHR ''|'' \<and> \<not> contains old [(rhs @ ''|'') ! (i + 1)]
      then Inr (AList.update n (old @ [(rhs @ ''|'') ! (i + 1)] @ '','') F)
      else Inr F)"
proof -
  let ?c = "(rhs @ ''|'') ! (i + 1)"
  have it: "item (rhs @ ''|'') (i + 1) = Inr ?c" using assms(2) by (simp add: item_def)
  have gF: "getitem F n = Inr old" using assms(1) by (simp add: getitem_def)
  show ?thesis
  proof (cases "[?c] \<in> set none_terminals")
    case True
    from assms(3)[OF True] have gf: "getitem first [?c] = Inr f" by (simp add: getitem_def)
    show ?thesis
      unfolding follow_after_def Let_def it gF gf sum.case
      using True by simp
  next
    case False
    show ?thesis
      unfolding follow_after_def Let_def it gF sum.case
      using False by simp
  qed
qed

lemma follow_after_shape:
  assumes "map_of F n = Some old" "i < length rhs" "\<forall>a\<in>set none_terminals. map_of first a \<noteq> None"
  shows "follow_after first none_terminals rhs n i F = Inr F
         \<or> (\<exists>x. follow_after first none_terminals rhs n i F = Inr (AList.update n (old @ x @ '','') F)
               \<and> \<not> contains old x
               \<and> (x = ''id'' \<or> (\<exists>c. x = [c] \<and> c \<in> set rhs) \<or> x \<in> snd ` set first))"
proof -
  let ?c = "(rhs @ ''|'') ! (i + 1)"
  let ?f = "the (map_of first [?c])"
  have f: "[?c] \<in> set none_terminals \<Longrightarrow> map_of first [?c] = Some ?f"
    using assms(3) by auto
  then have fin: "[?c] \<in> set none_terminals \<Longrightarrow> ?f \<in> snd ` set first"
    by (metis image_eqI map_of_SomeD snd_conv)
  have cin: "?c \<noteq> CHR ''|'' \<Longrightarrow> ?c \<in> set rhs"
    using assms(2) by (cases "i + 1 < length rhs") (auto simp: nth_append)
  define c1 where "c1 \<longleftrightarrow> [?c] \<in> set none_terminals \<and> \<not> contains old ?f"
  define c2 where "c2 \<longleftrightarrow> take 2 (drop (i + 1) (rhs @ ''|'')) = ''id'' \<and> \<not> contains old ''id''"
  define c3 where "c3 \<longleftrightarrow> ?c \<noteq> CHR ''|'' \<and> \<not> contains old [?c]"
  have flat: "follow_after first none_terminals rhs n i F =
     (if c1 then Inr (AList.update n (old @ ?f @ '','') F)
      else if c2 then Inr (AList.update n (old @ ''id'' @ '','') F)
      else if c3 then Inr (AList.update n (old @ [?c] @ '','') F)
      else Inr F)"
    unfolding c1_def c2_def c3_def by (rule follow_after_flat[OF assms(1,2)]) (rule f)
  show ?thesis
  proof (cases c1)
    case True
    with flat have "follow_after first none_terminals rhs n i F = Inr (AList.update n (old @ ?f @ '','') F)"
      by simp
    moreover from True have "\<not> contains old ?f" "?f \<in> snd ` set first"
      using fin by (simp_all add: c1_def)
    ultimately show ?thesis by blast
  next
    case n1: False
    show ?thesis
    proof (cases c2)
      case True
      with n1 flat have "follow_after first none_terminals rhs n i F = Inr (AList.update n (old @ ''id'' @ '','') F)"
        by simp
      moreover from True have "\<not> contains old ''id''" by (simp add: c2_def)
      ultimately show ?thesis by blast
    next
      case n2: False
      show ?thesis
      proof (cases c3)
        case True
        with n1 n2 flat have "follow_after first none_terminals rhs n i F = Inr (AList.update n (old @ [?c] @ '','') F)"
          by simp
        moreover from True have "\<not> contains old [?c]" "?c \<in> set rhs"
          using cin by (simp_all add: c3_def)
        ultimately show ?thesis by blast
      next
        case False
        with n1 n2 flat have "follow_after first none_terminals rhs n i F = Inr F" by simp
        then show ?thesis by blast
      qed
    qed
  qed
qed

lemma foldM_inv:
  assumes "I s" and "\<And>x s. x \<in> set xs \<Longrightarrow> I s \<Longrightarrow> \<exists>s'. f x s = Inr s' \<and> I s'"
  shows "\<exists>s'. foldM f xs s = Inr s' \<and> I s'"
  using assms
proof (induction xs arbitrary: s)
  case Nil
  then show ?case by simp
next
  case (Cons x xs)
  from Cons.prems(2)[of x s] Cons.prems(1) obtain s1 where s1: "f x s = Inr s1" "I s1"
    by auto
  from Cons.IH[OF s1(2)] Cons.prems(2) obtain s2 where "foldM f xs s1 = Inr s2" "I s2"
    by auto
  with s1(1) show ?case by simp
qed

lemma lookup_key:
  assumes "map fst F = K" "n \<in> set K"
  obtains old where "map_of F n = Some old" "(n, old) \<in> set F"
proof -
  from assms have "n \<in> fst ` set F" by (metis set_map)
  then obtain old where "map_of F n = Some old"
    by (metis map_of_eq_None_iff not_Some_eq)
  then show ?thesis using that map_of_SomeD by fast
qed

lemma inv2_update:
  assumes "inv2 K F" "n \<in> set K" "ok2 new"
  shows "inv2 K (AList.update n new F)"
proof -
  from assms(1,2) have "n \<in> fst ` set F" by (metis inv2_def set_map)
  then have "map fst (AList.update n new F) = map fst F" by (rule update_keys_same)
  moreover have "\<forall>(k, s)\<in>set (AList.update n new F). ok2 s"
    using update_subset[of n new F] assms(1,3) by (auto simp: inv2_def)
  ultimately show ?thesis using assms(1) by (simp add: inv2_def)
qed

lemma inv3_update:
  assumes "inv3 K F" "n \<in> set K" "ok3 new"
  shows "inv3 K (AList.update n new F)"
proof -
  from assms(1,2) have "n \<in> fst ` set F" by (metis inv3_def set_map)
  then have "map fst (AList.update n new F) = map fst F" by (rule update_keys_same)
  moreover have "\<forall>(k, s)\<in>set (AList.update n new F). ok3 s"
    using update_subset[of n new F] assms(1,3) by (auto simp: inv3_def)
  ultimately show ?thesis using assms(1) by (simp add: inv3_def)
qed

lemma follow_after_inv:
  assumes inv: "inv2 K F" and n: "n \<in> set K" and i: "i < length rhs"
    and d: "CHR ''$'' \<notin> set rhs"
    and fk: "\<forall>a\<in>set none_terminals. map_of first a \<noteq> None"
    and fv: "\<forall>x\<in>snd ` set first. (x = ''id'' \<or> (\<exists>c. x = [c])) \<and> CHR ''$'' \<notin> set x"
  shows "\<exists>F'. follow_after first none_terminals rhs n i F = Inr F' \<and> inv2 K F'"
proof -
  from inv have mk: "map fst F = K" by (simp add: inv2_def)
  obtain old where old: "map_of F n = Some old" "(n, old) \<in> set F"
    by (rule lookup_key[OF mk n])
  with inv have ok: "ok2 old" by (auto simp: inv2_def)
  from follow_after_shape[OF old(1) i fk]
  consider (same) "follow_after first none_terminals rhs n i F = Inr F"
    | (upd) x where
        "follow_after first none_terminals rhs n i F = Inr (AList.update n (old @ x @ '','') F)"
        "\<not> contains old x"
        "x = ''id'' \<or> (\<exists>c. x = [c] \<and> c \<in> set rhs) \<or> x \<in> snd ` set first"
    by blast
  then show ?thesis
  proof cases
    case same
    with inv show ?thesis by blast
  next
    case (upd x)
    note r = upd(1) and nc = upd(2) and x = upd(3)
    from x d fv have "CHR ''$'' \<notin> set x" "x = ''id'' \<or> (\<exists>c. x = [c])"
      by auto
    from ok2_add[OF ok nc this] have "ok2 (old @ x @ '','')" .
    from inv2_update[OF inv n this] r show ?thesis by blast
  qed
qed

lemma index_count:
  "count_list xs x = Suc k \<Longrightarrow>
   \<exists>m. index xs x = Inr m \<and> m < length xs \<and> count_list (drop (Suc m) xs) x = k"
proof (induction xs)
  case Nil
  then show ?case by simp
next
  case (Cons y ys)
  show ?case
  proof (cases "y = x")
    case True
    with Cons.prems show ?thesis by simp
  next
    case False
    with Cons.prems have "count_list ys x = Suc k" by simp
    from Cons.IH[OF this] False show ?thesis by auto
  qed
qed

lemma occurrences_inv:
  assumes d: "CHR ''$'' \<notin> set rhs"
    and fk: "\<forall>a\<in>set none_terminals. map_of first a \<noteq> None"
    and fv: "\<forall>x\<in>snd ` set first. (x = ''id'' \<or> (\<exists>c. x = [c])) \<and> CHR ''$'' \<notin> set x"
    and n: "[symbol] \<in> set K"
  shows "inv2 K F \<Longrightarrow> \<forall>i\<in>set idxs. i < length rhs \<Longrightarrow> count_list (drop indx rhs) symbol = k \<Longrightarrow>
         \<exists>F'. occurrences first none_terminals rhs symbol k indx idxs F = Inr F' \<and> inv2 K F'"
proof (induction k arbitrary: indx idxs F)
  case 0
  then show ?case by simp
next
  case (Suc k)
  from index_count[OF Suc.prems(3)] obtain m where m: "index (drop indx rhs) symbol = Inr m"
    "m < length (drop indx rhs)" "count_list (drop (Suc m) (drop indx rhs)) symbol = k"
    by blast
  let ?j = "indx + m"
  have j: "index_from rhs symbol indx = Inr ?j" using m(1) by (simp add: index_from_def)
  have jl: "?j < length rhs" using m(2) by simp
  have cnt: "count_list (drop (?j + 1) rhs) symbol = k" using m(3) by (simp add: add.commute)
  have all: "\<forall>i\<in>set (idxs @ [?j]). i < length rhs" using Suc.prems(2) jl by simp
  have "\<exists>F1. foldM (follow_after first none_terminals rhs [symbol]) (idxs @ [?j]) F = Inr F1 \<and> inv2 K F1"
  proof (rule foldM_inv[where I = "inv2 K"])
    show "inv2 K F" by (rule Suc.prems(1))
  next
    fix x s assume "x \<in> set (idxs @ [?j])" "inv2 K s"
    with all have "x < length rhs" by blast
    from follow_after_inv[OF \<open>inv2 K s\<close> n this d fk fv]
    show "\<exists>s'. follow_after first none_terminals rhs [symbol] x s = Inr s' \<and> inv2 K s'" .
  qed
  then obtain F1 where F1: "foldM (follow_after first none_terminals rhs [symbol]) (idxs @ [?j]) F = Inr F1"
    "inv2 K F1" by blast
  from Suc.IH[OF F1(2) all cnt] j F1(1) show ?case by simp
qed

lemma rule2_inv:
  assumes d: "\<forall>(t, v)\<in>set gramer. CHR ''$'' \<notin> set v"
    and fk: "\<forall>a\<in>set none_terminals. map_of first a \<noteq> None"
    and fv: "\<forall>x\<in>snd ` set first. (x = ''id'' \<or> (\<exists>c. x = [c])) \<and> CHR ''$'' \<notin> set x"
    and inv: "inv2 none_terminals F"
  shows "\<exists>F'. rule2 gramer first none_terminals F = Inr F' \<and> inv2 none_terminals F'"
  unfolding rule2_def
proof (rule foldM_inv[where I = "inv2 none_terminals"])
  show "inv2 none_terminals F" by (rule inv)
next
  fix x s assume x: "x \<in> set gramer" and s: "inv2 none_terminals s"
  obtain rule rhs where xr: "x = (rule, rhs)" by (cases x)
  with x d have dr: "CHR ''$'' \<notin> set rhs" by auto
  have "\<exists>s'. foldM (rule2_symbol first none_terminals rhs) rhs s = Inr s' \<and> inv2 none_terminals s'"
  proof (rule foldM_inv[where I = "inv2 none_terminals"])
    show "inv2 none_terminals s" by (rule s)
  next
    fix symbol s1 assume s1: "inv2 none_terminals s1"
    show "\<exists>s'. rule2_symbol first none_terminals rhs symbol s1 = Inr s' \<and> inv2 none_terminals s'"
    proof (cases "[symbol] \<in> set none_terminals")
      case True
      from occurrences_inv[OF dr fk fv True s1, of "[]" 0 "count_list rhs symbol"] True
      show ?thesis by (simp add: rule2_symbol_def)
    next
      case False
      with s1 show ?thesis by (simp add: rule2_symbol_def)
    qed
  qed
  then show "\<exists>s'. (case x of (rule, rhs) \<Rightarrow> foldM (rule2_symbol first none_terminals rhs) rhs) s = Inr s'
                  \<and> inv2 none_terminals s'"
    by (simp add: xr)
qed

lemma rule3_symbol_inv:
  assumes inv: "inv3 K F" and t: "target \<in> set K" and d: "symbol \<noteq> CHR ''$''"
  shows "\<exists>F'. rule3_symbol target symbol F = Inr F' \<and> inv3 K F'"
proof -
  from inv have mk: "map fst F = K" by (simp add: inv3_def)
  obtain old where old: "map_of F target = Some old" "(target, old) \<in> set F"
    by (rule lookup_key[OF mk t])
  with inv have ok: "ok3 old" by (auto simp: inv3_def)
  have g: "getitem F target = Inr old" using old(1) by (simp add: getitem_def)
  show ?thesis
  proof (cases "contains old [symbol]")
    case True
    with g inv show ?thesis by (simp add: rule3_symbol_def)
  next
    case nc: False
    show ?thesis
    proof (cases "symbol = CHR ''i''")
      case True
      with nc have nci: "\<not> contains old ''i''" by simp
      from ok3_add_id[OF ok nci] inv3_update[OF inv t]
      have "inv3 K (AList.update target (old @ '',id'') F)"
        "old = [] \<Longrightarrow> inv3 K (AList.update target (old @ ''id'') F)"
        by blast+
      with g nc True show ?thesis by (simp add: rule3_symbol_def)
    next
      case ni: False
      show ?thesis
      proof (cases "symbol = CHR '',''")
        case True
        with g nc ni inv show ?thesis by (simp add: rule3_symbol_def)
      next
        case False
        from ok3_add_char[OF ok nc False d] inv3_update[OF inv t]
        have "inv3 K (AList.update target (old @ '','' @ [symbol]) F)"
          "old = [] \<or> last old = CHR '','' \<Longrightarrow> inv3 K (AList.update target (old @ [symbol]) F)"
          by blast+
        with g nc ni False show ?thesis by (auto simp: rule3_symbol_def)
      qed
    qed
  qed
qed

lemma rule3_inv:
  assumes ne: "\<forall>(t, v)\<in>set gramer. v \<noteq> []"
    and keys: "map fst gramer = none_terminals"
    and inv: "inv3 none_terminals F"
  shows "\<exists>F'. rule3 gramer none_terminals F = Inr F' \<and> inv3 none_terminals F'"
  unfolding rule3_def
proof (rule foldM_inv[where I = "inv3 none_terminals"])
  show "inv3 none_terminals F" by (rule inv)
next
  fix x s assume x: "x \<in> set gramer" and s: "inv3 none_terminals s"
  obtain rule rhs where xr: "x = (rule, rhs)" by (cases x)
  with x ne have r: "rhs \<noteq> []" by auto
  from x xr keys have rk: "rule \<in> set none_terminals" by force
  show "\<exists>s'. rule3_rule none_terminals x s = Inr s' \<and> inv3 none_terminals s'"
  proof (cases "[last rhs] \<in> set none_terminals")
    case True
    from s have mk: "map fst s = none_terminals" by (simp add: inv3_def)
    obtain source where src: "map_of s rule = Some source" "(rule, source) \<in> set s"
      by (rule lookup_key[OF mk rk])
    with s have "ok3 source" by (auto simp: inv3_def)
    then have nd: "CHR ''$'' \<notin> set source" by (simp add: ok3_def)
    have "\<exists>s'. foldM (rule3_symbol [last rhs]) source s = Inr s' \<and> inv3 none_terminals s'"
    proof (rule foldM_inv[where I = "inv3 none_terminals"])
      show "inv3 none_terminals s" by (rule s)
    next
      fix symbol s1 assume "symbol \<in> set source" "inv3 none_terminals s1"
      with nd have "symbol \<noteq> CHR ''$''" by auto
      from rule3_symbol_inv[OF \<open>inv3 none_terminals s1\<close> True this]
      show "\<exists>s'. rule3_symbol [last rhs] symbol s1 = Inr s' \<and> inv3 none_terminals s'" .
    qed
    with True r src(1) show ?thesis by (simp add: rule3_rule_def xr getitem_def)
  next
    case False
    with r s show ?thesis by (simp add: rule3_rule_def xr)
  qed
qed

lemma init_dict:
  "distinct (map fst g) \<Longrightarrow> fst ` set acc \<inter> fst ` set g = {} \<Longrightarrow>
   foldl (\<lambda>follows_dict (rule, rhs). AList.update rule [] follows_dict) acc g =
     acc @ map (\<lambda>(rule, rhs). (rule, [])) g"
proof (induction g arbitrary: acc)
  case Nil
  then show ?case by simp
next
  case (Cons a g)
  obtain rule rhs where a: "a = (rule, rhs)" by (cases a)
  from Cons.prems have r: "rule \<notin> fst ` set acc" "rule \<notin> fst ` set g" "distinct (map fst g)"
    and disj: "fst ` set acc \<inter> fst ` set g = {}"
    by (auto simp: a)
  have "fst ` set (acc @ [(rule, [])]) \<inter> fst ` set g = {}" using disj r(2) by auto
  from Cons.IH[OF r(3) this] show ?case
    by (simp add: a update_new[OF r(1)])
qed

lemma final_entries:
  assumes "ok3 s"
  shows "entries (rule1 (strip_comma s)) = entries (strip_comma s) @ [''$'']"
    and "entries (strip_comma s) = entries s"
    and "distinct (entries (rule1 (strip_comma s)))"
    and "rule1 (strip_comma s) = ''$'' \<or> suffix '',$'' (rule1 (strip_comma s))"
proof -
  have d: "entries ''$'' = [''$'']" by (simp add: entries_def)
  show 1: "entries (rule1 (strip_comma s)) = entries (strip_comma s) @ [''$'']"
    using entries_append_comma[of "strip_comma s" "''$''"] d
    by (simp add: rule1_def entries_Nil)
  show 2: "entries (strip_comma s) = entries s"
  proof (cases "s \<noteq> [] \<and> last s = CHR '',''")
    case True
    then have "s = butlast s @ '',''" by (metis append_butlast_last_id)
    then have "entries s = entries (butlast s)" by (metis entries_comma_end)
    with True show ?thesis by (simp add: strip_comma_def)
  next
    case False
    then show ?thesis by (auto simp: strip_comma_def)
  qed
  have "''$'' \<notin> set (entries s)" using entries_chars[of "''$''" s] assms by (auto simp: ok3_def)
  with 1 2 assms show "distinct (entries (rule1 (strip_comma s)))" by (simp add: ok3_def)
  show "rule1 (strip_comma s) = ''$'' \<or> suffix '',$'' (rule1 (strip_comma s))"
    by (simp add: rule1_def suffix_def)
qed

lemma appended_update_Nil:
  "map_of F n = Some [] \<Longrightarrow> appended F (AList.update n x F)"
  using appended_update[of F n "[]" x] by simp

lemma follow_after_appended:
  "follow_after first none_terminals rhs n i F = Inr F' \<Longrightarrow> appended F F'"
  unfolding follow_after_def Let_def getitem_def
  by (auto simp: appended_refl split: sum.splits option.splits if_splits intro: appended_update)

lemma rule3_symbol_appended:
  "rule3_symbol target symbol F = Inr F' \<Longrightarrow> appended F F'"
  unfolding rule3_symbol_def getitem_def
  by (auto simp: appended_refl split: sum.splits option.splits if_splits
        intro: appended_update appended_update_Nil)

lemma chain_value:
  assumes "chain g n t = Some r"
  shows "\<forall>x. r = Inr x \<longrightarrow> from_production g x"
proof (rule chain.raw_induct[where P = "\<lambda>g n t r. \<forall>x. r = Inr x \<longrightarrow> from_production g x", OF _ assms])
  fix chain' :: "dict \<Rightarrow> string list \<Rightarrow> string \<Rightarrow> (error + string) option"
    and g' n' t' r'
  assume IH: "\<And>g n t r. chain' g n t = Some r \<Longrightarrow> \<forall>x. r = Inr x \<longrightarrow> from_production g x"
    and body: "(case getitem g' t' of
        Inl e \<Rightarrow> Some (Inl e)
      | Inr v \<Rightarrow>
          (case item v 0 of
             Inl e \<Rightarrow> Some (Inl e)
           | Inr c \<Rightarrow>
               if [c] \<notin> set n'
               then (if take 2 v = ''id'' then Some (Inr (take 2 v)) else Some (Inr [c]))
               else chain' g' n' [c])) = Some r'"
  show "\<forall>x. r' = Inr x \<longrightarrow> from_production g' x"
  proof (intro allI impI)
    fix x assume rx: "r' = Inr x"
    from body rx obtain v where v: "map_of g' t' = Some v"
      by (auto simp: getitem_def split: option.splits)
    then have mem: "(t', v) \<in> set g'" by (rule map_of_SomeD)
    from body rx v obtain c v' where cv: "v = c # v'"
      by (cases v) (auto simp: getitem_def item_def)
    show "from_production g' x"
    proof (cases "[c] \<in> set n'")
      case True
      with body v cv have "chain' g' n' [c] = Some r'" by (simp add: getitem_def item_def)
      from IH[OF this] rx show ?thesis by blast
    next
      case False
      with body v cv rx mem show ?thesis
        by (auto simp: getitem_def item_def from_production_def split: if_splits)
    qed
  qed
qed

lemma first_of_value:
  assumes "first_of g n v = Some (Inr x)" "(t, v) \<in> set g"
  shows "from_production g x"
proof (cases "take 2 v = ''id''")
  case True
  with assms(1) show ?thesis by (simp add: first_of_def from_production_def)
next
  case False
  with assms(1) obtain c v' where cv: "v = c # v'"
    by (cases v) (auto simp: first_of_def item_def)
  show ?thesis
  proof (cases "[c] \<in> set n")
    case True
    with assms(1) False cv have "chain g n [c] = Some (Inr x)"
      by (auto simp: first_of_def item_def split: if_splits)
    from chain_value[OF this] show ?thesis by blast
  next
    case nt: False
    with assms False cv show ?thesis
      by (auto simp: first_of_def item_def from_production_def)
  qed
qed

lemma firsts_loop_values:
  "firsts_loop g n rest d = Some (Inr d') \<Longrightarrow> set rest \<subseteq> set g \<Longrightarrow>
   \<forall>x\<in>snd ` set d. from_production g x \<Longrightarrow> \<forall>x\<in>snd ` set d'. from_production g x"
proof (induction rest arbitrary: d)
  case Nil
  then show ?case by simp
next
  case (Cons a rest)
  obtain t v where a: "a = (t, v)" by (cases a)
  from Cons.prems(1) obtain x where x: "first_of g n v = Some (Inr x)"
    and r: "firsts_loop g n rest (AList.update t x d) = Some (Inr d')"
    by (auto simp: a split: option.splits sum.splits)
  from Cons.prems(2) have mem: "(t, v) \<in> set g" and sub: "set rest \<subseteq> set g" by (auto simp: a)
  have "\<forall>x\<in>snd ` set (AList.update t x d). from_production g x"
    using update_subset[of t x d] Cons.prems(3) first_of_value[OF x mem] by force
  from Cons.IH[OF r sub this] show ?case .
qed

lemma foldM_appended:
  assumes "\<And>x s s'. x \<in> set xs \<Longrightarrow> f x s = Inr s' \<Longrightarrow> appended s s'"
  shows "foldM f xs s = Inr s' \<Longrightarrow> appended s s'"
  using assms
proof (induction xs arbitrary: s)
  case Nil
  then show ?case by (simp add: appended_refl)
next
  case (Cons x xs)
  from Cons.prems(1) obtain s1 where s1: "f x s = Inr s1" "foldM f xs s1 = Inr s'"
    by (auto split: sum.splits)
  from Cons.prems(2)[of x s s1] s1(1) have "appended s s1" by simp
  moreover have "appended s1 s'"
  proof (rule Cons.IH[OF s1(2)])
    fix y t t' assume "y \<in> set xs" "f y t = Inr t'"
    then show "appended t t'" using Cons.prems(2)[of y t t'] by simp
  qed
  ultimately show ?case by (rule appended_trans)
qed

lemma occurrences_appended:
  "occurrences first none_terminals rhs symbol k indx idxs F = Inr F' \<Longrightarrow> appended F F'"
proof (induction k arbitrary: indx idxs F)
  case 0
  then show ?case by (simp add: appended_refl)
next
  case (Suc k)
  from Suc.prems obtain j F1 where j: "index_from rhs symbol indx = Inr j"
    and F1: "foldM (follow_after first none_terminals rhs [symbol]) (idxs @ [j]) F = Inr F1"
    and r: "occurrences first none_terminals rhs symbol k (j + 1) (idxs @ [j]) F1 = Inr F'"
    by (auto split: sum.splits)
  have "appended F F1"
    using F1 by (rule foldM_appended[rotated]) (rule follow_after_appended)
  with Suc.IH[OF r] show ?case by (rule appended_trans[rotated])
qed

lemma rule2_appended:
  "rule2 gramer first none_terminals F = Inr F' \<Longrightarrow> appended F F'"
  unfolding rule2_def
proof (erule foldM_appended[rotated])
  fix x s s'
  assume "(case x of (rule, rhs) \<Rightarrow> foldM (rule2_symbol first none_terminals rhs) rhs) s = Inr s'"
  then obtain rule rhs where "foldM (rule2_symbol first none_terminals rhs) rhs s = Inr s'"
    by (cases x) simp
  then show "appended s s'"
  proof (rule foldM_appended[rotated])
    fix symbol s1 s2
    assume "rule2_symbol first none_terminals rhs symbol s1 = Inr s2"
    then show "appended s1 s2"
      by (auto simp: rule2_symbol_def appended_refl occurrences_appended split: if_splits)
  qed
qed

lemma rule3_appended:
  "rule3 gramer none_terminals F = Inr F' \<Longrightarrow> appended F F'"
  unfolding rule3_def
proof (erule foldM_appended[rotated])
  fix x s s'
  assume a: "rule3_rule none_terminals x s = Inr s'"
  obtain rule rhs where x: "x = (rule, rhs)" by (cases x)
  show "appended s s'"
  proof (cases "rhs \<noteq> [] \<and> [last rhs] \<in> set none_terminals")
    case True
    with a x obtain source where "foldM (rule3_symbol [last rhs]) source s = Inr s'"
      by (auto simp: rule3_rule_def split: sum.splits)
    then show ?thesis
      by (rule foldM_appended[rotated]) (rule rule3_symbol_appended)
  next
    case False
    with a x show ?thesis
      by (auto simp: rule3_rule_def appended_refl split: if_splits)
  qed
qed

text \<open>
  Claim C5, as the code has it. Take a grammar (its keys distinct, as in a dictionary) on
  which \<open>firsts\<close> has returned the FIRST sets and in which the character \<open>$\<close> occurs in
  no production. Then \<open>follows\<close> returns, with a string for every nonterminal in the order
  of the grammar; every string is \<open>$\<close> or ends in \<open>,$\<close>; the entries of the string (the
  pieces between its commas that are not empty) end with \<open>$\<close> and no entry occurs twice.
  The strings are built in order: rule 2 starts from empty strings, rule 3 only appends to
  what rule 2 left, and the result lists the entries that the two rules left, followed by
  \<open>$\<close>. And whatever the grammar, every change that rule 2 and rule 3 make to a FOLLOW
  string appends to its end, so that the entries stand in the order in which they were
  added.
\<close>

theorem follows_ends_with_dollar:
  assumes "distinct (map fst gramer)"
    and "firsts gramer (get_none_terminals gramer) = Some (Inr first)"
    and "\<forall>(A, rhs)\<in>set gramer. CHR ''$'' \<notin> set rhs"
  shows "\<exists>follow F2 F3.
        follows gramer first (get_none_terminals gramer) = Inr follow
      \<and> map fst follow = get_none_terminals gramer
      \<and> (\<forall>(A, s)\<in>set follow.
            last (entries s) = ''$'' \<and> distinct (entries s) \<and> (s = ''$'' \<or> suffix '',$'' s))
      \<and> rule2 gramer first (get_none_terminals gramer)
            (map (\<lambda>(rule, rhs). (rule, [])) gramer) = Inr F2
      \<and> rule3 gramer (get_none_terminals gramer) F2 = Inr F3
      \<and> appended F2 F3
      \<and> follow = map (\<lambda>(rule, s). (rule, rule1 (strip_comma s))) F3
      \<and> (\<forall>(A, s)\<in>set F3. entries (rule1 (strip_comma s)) = entries s @ [''$''])
      \<and> (\<forall>rhs n i F F'.
            follow_after first (get_none_terminals gramer) rhs n i F = Inr F' \<longrightarrow> appended F F')
      \<and> (\<forall>target symbol F F'. rule3_symbol target symbol F = Inr F' \<longrightarrow> appended F F')"
proof -
  let ?K = "get_none_terminals gramer"
  have K: "map fst gramer = ?K" by (simp add: get_none_terminals_def)
  from firsts_loop_Inr[OF assms(2)[unfolded firsts_def]]
  have ne: "\<forall>(t, v)\<in>set gramer. v \<noteq> []" and fkeys: "\<forall>(t, v)\<in>set gramer. t \<in> fst ` set first"
    by auto
  have fk: "\<forall>a\<in>set ?K. map_of first a \<noteq> None"
    using fkeys by (auto simp: get_none_terminals_def map_of_eq_None_iff)
  from firsts_loop_values[OF assms(2)[unfolded firsts_def]]
  have "\<forall>x\<in>snd ` set first. from_production gramer x" by simp
  then have fv: "\<forall>x\<in>snd ` set first. (x = ''id'' \<or> (\<exists>c. x = [c])) \<and> CHR ''$'' \<notin> set x"
    using assms(3) by (fastforce simp: from_production_def)
  let ?F0 = "foldl (\<lambda>follows_dict (rule, rhs). AList.update rule [] follows_dict) [] gramer"
  have F0: "?F0 = map (\<lambda>(rule, rhs). (rule, [])) gramer"
    using init_dict[OF assms(1), of "[]"] by simp
  have "ok2 []" by (simp add: ok2_def ok3_def entries_Nil)
  then have i0: "inv2 ?K ?F0"
    unfolding F0 by (auto simp: inv2_def get_none_terminals_def)
  from rule2_inv[OF assms(3) fk fv i0]
  obtain F2 where F2: "rule2 gramer first ?K ?F0 = Inr F2" "inv2 ?K F2" by blast
  from F2(2) have "inv3 ?K F2" by (auto simp: inv2_def inv3_def ok2_def)
  from rule3_inv[OF ne K this]
  obtain F3 where F3: "rule3 gramer ?K F2 = Inr F3" "inv3 ?K F3" by blast
  let ?follow = "map (\<lambda>(rule, s). (rule, rule1 (strip_comma s))) F3"
  have r: "follows gramer first ?K = Inr ?follow"
    by (simp add: follows_def F2(1) F3(1))
  have k: "map fst ?follow = ?K"
    using F3(2) by (simp add: inv3_def case_prod_unfold comp_def)
  have v: "\<forall>(A, s)\<in>set ?follow.
            last (entries s) = ''$'' \<and> distinct (entries s) \<and> (s = ''$'' \<or> suffix '',$'' s)"
  proof (intro ballI, clarify)
    fix A s assume "(A, s) \<in> set ?follow"
    then obtain s0 where s0: "(A, s0) \<in> set F3" "s = rule1 (strip_comma s0)" by auto
    with F3(2) have "ok3 s0" by (auto simp: inv3_def)
    from final_entries[OF this] s0(2)
    show "last (entries s) = ''$'' \<and> distinct (entries s) \<and> (s = ''$'' \<or> suffix '',$'' s)"
      by simp
  qed
  have a1: "\<forall>rhs n i F F'.
            follow_after first ?K rhs n i F = Inr F' \<longrightarrow> appended F F'"
    using follow_after_appended by blast
  have a2: "\<forall>target symbol F F'. rule3_symbol target symbol F = Inr F' \<longrightarrow> appended F F'"
    using rule3_symbol_appended by blast
  have r2: "rule2 gramer first ?K (map (\<lambda>(rule, rhs). (rule, [])) gramer) = Inr F2"
    using F2(1) by (simp only: F0)
  have p: "appended F2 F3" using F3(1) by (rule rule3_appended)
  have e: "\<forall>(A, s)\<in>set F3. entries (rule1 (strip_comma s)) = entries s @ [''$'']"
  proof (intro ballI, clarify)
    fix A s assume "(A, s) \<in> set F3"
    with F3(2) have "ok3 s" by (auto simp: inv3_def)
    from final_entries(1,2)[OF this]
    show "entries (rule1 (strip_comma s)) = entries s @ [''$'']" by simp
  qed
  show ?thesis
    by (intro exI[of _ ?follow] exI[of _ F2] exI[of _ F3] conjI r k v r2 F3(1) p refl e a1 a2)
qed

theorem follows_ends_with_dollar_witness:
  "distinct (map fst [(''S'', ''AaAb''), (''A'', ''c'')])
   \<and> firsts [(''S'', ''AaAb''), (''A'', ''c'')] [''S'', ''A''] =
       Some (Inr [(''S'', ''c''), (''A'', ''c'')])
   \<and> follows [(''S'', ''AaAb''), (''A'', ''c'')] [(''S'', ''c''), (''A'', ''c'')] [''S'', ''A''] =
       Inr [(''S'', ''$''), (''A'', ''a,b,$'')]
   \<and> entries ''a,b,$'' = [''a'', ''b'', ''$'']
   \<and> (\<exists>follow. follows [(''S'', ''AaAb''), (''A'', ''c'')] [(''S'', ''c''), (''A'', ''c'')]
          [''S'', ''A''] = Inr follow \<and> map fst follow = [''S'', ''A''])"
proof -
  let ?g = "[(''S'', ''AaAb''), (''A'', ''c'')]"
  let ?f = "[(''S'', ''c''), (''A'', ''c'')]"
  have n: "get_none_terminals ?g = [''S'', ''A'']" by (simp add: get_none_terminals_def)
  have d: "distinct (map fst ?g)" by simp
  have f: "firsts ?g [''S'', ''A''] = Some (Inr ?f)" by code_simp
  have f': "firsts ?g (get_none_terminals ?g) = Some (Inr ?f)" using f by (simp only: n)
  have nd: "\<forall>(A, rhs)\<in>set ?g. CHR ''$'' \<notin> set rhs" by simp
  have v: "follows ?g ?f [''S'', ''A''] = Inr [(''S'', ''$''), (''A'', ''a,b,$'')]" by code_simp
  have e: "entries ''a,b,$'' = [''a'', ''b'', ''$'']" by code_simp
  from follows_ends_with_dollar[OF d f' nd]
  have "\<exists>follow. follows ?g ?f (get_none_terminals ?g) = Inr follow
          \<and> map fst follow = get_none_terminals ?g"
    by blast
  then have "\<exists>follow. follows ?g ?f [''S'', ''A''] = Inr follow \<and> map fst follow = [''S'', ''A'']"
    by (simp only: n)
  with d f v e show ?thesis by blast
qed

text \<open>
  The claim for every corrected grammar fails when \<open>$\<close> occurs in a production: for
  \<open>S \<rightarrow> A$\<close>, \<open>A \<rightarrow> x\<close> rule 2 puts \<open>$\<close> into the FOLLOW string of \<open>A\<close>, rule 1 appends
  \<open>$\<close> without looking, and the string is \<open>$,$\<close>, with \<open>$\<close> twice.
\<close>

theorem follows_duplicate_dollar_counterexample:
  "correction [(''S'', ''A$''), (''A'', ''x'')] = [(''S'', ''A$''), (''A'', ''x'')]
   \<and> firsts [(''S'', ''A$''), (''A'', ''x'')] [''S'', ''A''] =
       Some (Inr [(''S'', ''x''), (''A'', ''x'')])
   \<and> follows [(''S'', ''A$''), (''A'', ''x'')] [(''S'', ''x''), (''A'', ''x'')] [''S'', ''A''] =
       Inr [(''S'', ''$''), (''A'', ''$,$'')]
   \<and> entries ''$,$'' = [''$'', ''$'']
   \<and> \<not> distinct (entries ''$,$'')"
  by code_simp

end
